theory Spec2Isabelle
  imports Complex_Main "HOL-Library.Sublist"
begin

section \<open>Text: the operations of Python's \<open>str\<close> that the service uses\<close>

text \<open>
  A Python string is modelled as a list of code points below 256 (\<open>string\<close>): the
  service only strips, lower-cases, searches and prints its text, and the statement
  format is ASCII. The character classes below are those of Python on this range.
\<close>

definition is_space :: "char \<Rightarrow> bool" where
  "is_space c = (of_char c \<in> {9, 10, 11, 12, 13, 28, 29, 30, 31, 32, 133, 160 :: nat})"

text \<open>\<open>s.strip()\<close>\<close>

definition strip :: "string \<Rightarrow> string" where
  "strip s = rev (dropWhile is_space (rev (dropWhile is_space s)))"

definition lower_char :: "char \<Rightarrow> char" where
  "lower_char c =
     (let n = (of_char c :: nat)
      in if (65 \<le> n \<and> n \<le> 90) \<or> (192 \<le> n \<and> n \<le> 222 \<and> n \<noteq> 215)
         then char_of (n + 32) else c)"

text \<open>\<open>s.lower()\<close>\<close>

definition lower :: "string \<Rightarrow> string" where
  "lower s = map lower_char s"

text \<open>\<open>s.startswith(p)\<close>\<close>

fun startswith :: "string \<Rightarrow> string \<Rightarrow> bool" where
  "startswith s [] = True"
| "startswith [] (p # ps) = False"
| "startswith (c # cs) (p # ps) = (c = p \<and> startswith cs ps)"

text \<open>\<open>needle in hay\<close>: the needle occurs as a contiguous run of the hay.\<close>

fun contains :: "string \<Rightarrow> string \<Rightarrow> bool" where
  "contains needle [] = (needle = [])"
| "contains needle (h # hs) = (startswith (h # hs) needle \<or> contains needle hs)"

text \<open>\<open>s.replace(c, "")\<close> for a single character \<open>c\<close>\<close>

definition remove_char :: "char \<Rightarrow> string \<Rightarrow> string" where
  "remove_char c s = filter (\<lambda>x. x \<noteq> c) s"

definition is_digit :: "char \<Rightarrow> bool" where
  "is_digit c = (48 \<le> (of_char c :: nat) \<and> (of_char c :: nat) \<le> 57)"

definition digit_val :: "char \<Rightarrow> nat" where
  "digit_val c = of_char c - 48"

definition digit_char :: "nat \<Rightarrow> char" where
  "digit_char n = ''0123456789'' ! n"

text \<open>\<open>int(s)\<close> on a run of decimal digits\<close>

definition nat_of_digits :: "string \<Rightarrow> nat" where
  "nat_of_digits s = foldl (\<lambda>a c. 10 * a + digit_val c) 0 s"

text \<open>\<open>str(n)\<close> for a non-negative integer\<close>

fun show_nat :: "nat \<Rightarrow> string" where
  "show_nat n = (if n < 10 then [digit_char n]
                 else show_nat (n div 10) @ [digit_char (n mod 10)])"

declare show_nat.simps [simp del]

text \<open>\<open>len(str(n))\<close>: the number of decimal digits of a coefficient\<close>

fun ndigits :: "nat \<Rightarrow> nat" where
  "ndigits n = (if n < 10 then 1 else Suc (ndigits (n div 10)))"

declare ndigits.simps [simp del]

definition hex_digit :: "nat \<Rightarrow> char" where
  "hex_digit n = ''0123456789abcdef'' ! n"

definition is_printable :: "char \<Rightarrow> bool" where
  "is_printable c =
     (let n = (of_char c :: nat)
      in \<not> (n < 32 \<or> (127 \<le> n \<and> n \<le> 160) \<or> n = 173))"

definition repr_char :: "char \<Rightarrow> char \<Rightarrow> string" where
  "repr_char quote c =
     (if c = quote \<or> c = CHR 0x5C then [CHR 0x5C, c]
      else if c = CHR 0x09 then [CHR 0x5C, CHR ''t'']
      else if c = CHR 0x0A then [CHR 0x5C, CHR ''n'']
      else if c = CHR 0x0D then [CHR 0x5C, CHR ''r'']
      else if is_printable c then [c]
      else [CHR 0x5C, CHR ''x'', hex_digit (of_char c div 16), hex_digit (of_char c mod 16)])"

text \<open>\<open>repr(s)\<close>, which \<open>{s!r}\<close> prints inside the diagnostics\<close>

definition repr :: "string \<Rightarrow> string" where
  "repr s =
     (let quote = (if CHR 0x27 \<in> set s \<and> CHR 0x22 \<notin> set s then CHR 0x22 else CHR 0x27)
      in [quote] @ concat (map (repr_char quote) s) @ [quote])"

section \<open>Decimal: Python's \<open>decimal.Decimal\<close> in the default context\<close>

text \<open>
  A value is a sign, a coefficient and an exponent (\<open>(-1)^sign * coeff * 10^exp\<close>),
  an infinity or a NaN. The service never changes the thread's context, so every
  operation runs with precision 28, rounding \<open>ROUND_HALF_EVEN\<close>, exponent limits
  \<open>-999999\<close> and \<open>999999\<close>, and the traps \<open>InvalidOperation\<close>, \<open>DivisionByZero\<close>
  and \<open>Overflow\<close>: a trapped signal is raised as an exception. The sign and the
  payload of a NaN are not kept, since no NaN reaches a place that prints it.
\<close>

datatype decimal =
    Finite (dsign: bool) (coeff: nat) (dexp: int)
  | Infinity bool
  | NaN (signalling: bool)

datatype signal = InvalidOperation | Overflow

datatype rounding = ROUND_HALF_UP | ROUND_HALF_EVEN

definition prec :: int where "prec = 28"
definition Emax :: int where "Emax = 999999"
definition Emin :: int where "Emin = - 999999"
definition Etiny :: int where "Etiny = Emin - prec + 1"
definition Etop :: int where "Etop = Emax - prec + 1"

text \<open>\<open>Decimal.adjusted()\<close>: the exponent of the most significant digit\<close>

definition adjusted :: "nat \<Rightarrow> int \<Rightarrow> int" where
  "adjusted c e = int (ndigits c) + e - 1"

text \<open>
  Dropping the \<open>k\<close> lowest digits of a coefficient. Python decides on the digit
  string (\<open>_round_half_up\<close>, \<open>_round_half_even\<close>): up when the first dropped digit is
  5 or more, except, for half-even, on an exact half below an even kept digit. On the
  number that is a comparison of twice the dropped part with \<open>10^k\<close>.
\<close>

definition round_coeff :: "rounding \<Rightarrow> nat \<Rightarrow> nat \<Rightarrow> nat" where
  "round_coeff m c k =
     (let q = c div 10 ^ k; r = c mod 10 ^ k
      in case m of
           ROUND_HALF_UP \<Rightarrow> if 10 ^ k \<le> 2 * r then q + 1 else q
         | ROUND_HALF_EVEN \<Rightarrow>
             if 10 ^ k < 2 * r \<or> (2 * r = 10 ^ k \<and> odd q) then q + 1 else q)"

text \<open>\<open>Decimal._rescale(exp, rounding)\<close>: the same number at the exponent \<open>exp\<close>,
  padded with zeros or rounded; no limit of the context applies.\<close>

definition rescale :: "int \<Rightarrow> rounding \<Rightarrow> decimal \<Rightarrow> decimal" where
  "rescale ex m d =
     (case d of
        Finite s c e \<Rightarrow>
          if c = 0 then Finite s 0 ex
          else if ex \<le> e then Finite s (c * 10 ^ nat (e - ex)) ex
          else Finite s (round_coeff m c (nat (ex - e))) ex
      | _ \<Rightarrow> d)"

text \<open>\<open>Decimal._fix(context)\<close>: round a result to the precision and check its
  exponent. \<open>Overflow\<close> is trapped; \<open>Rounded\<close>, \<open>Inexact\<close>, \<open>Subnormal\<close>,
  \<open>Underflow\<close> and \<open>Clamped\<close> are not, and leave no trace here.\<close>

definition dec_fix :: "decimal \<Rightarrow> signal + decimal" where
  "dec_fix d =
     (case d of
        Finite s c e \<Rightarrow>
          if c = 0 then Inr (Finite s 0 (min (max e Etiny) Emax))
          else
            let exp_min0 = int (ndigits c) + e - prec
            in if Etop < exp_min0 then Inl Overflow
               else
                 let exp_min = max exp_min0 Etiny
                 in if e < exp_min then
                      let coeff1 = round_coeff ROUND_HALF_EVEN c (nat (exp_min - e));
                          carry = (prec < int (ndigits coeff1));
                          coeff2 = (if carry then coeff1 div 10 else coeff1);
                          exp2 = (if carry then exp_min + 1 else exp_min)
                      in if Etop < exp2 then Inl Overflow
                         else Inr (Finite s coeff2 exp2)
                    else Inr d
      | _ \<Rightarrow> Inr d)"

text \<open>\<open>a * b\<close>\<close>

definition dec_mul :: "decimal \<Rightarrow> decimal \<Rightarrow> signal + decimal" where
  "dec_mul a b =
     (case (a, b) of
        (NaN sa, _) \<Rightarrow>
          if sa \<or> (case b of NaN sb \<Rightarrow> sb | _ \<Rightarrow> False) then Inl InvalidOperation
          else Inr (NaN False)
      | (_, NaN sb) \<Rightarrow> if sb then Inl InvalidOperation else Inr (NaN False)
      | (Infinity sa, Infinity sb) \<Rightarrow> Inr (Infinity (sa \<noteq> sb))
      | (Infinity sa, Finite sb cb eb) \<Rightarrow>
          if cb = 0 then Inl InvalidOperation else Inr (Infinity (sa \<noteq> sb))
      | (Finite sa ca ea, Infinity sb) \<Rightarrow>
          if ca = 0 then Inl InvalidOperation else Inr (Infinity (sa \<noteq> sb))
      | (Finite sa ca ea, Finite sb cb eb) \<Rightarrow>
          dec_fix (Finite (sa \<noteq> sb) (ca * cb) (ea + eb)))"

text \<open>\<open>_normalize(op1, op2, prec)\<close>: bring two non-zero operands to one exponent.
  An operand too small to change the rounded sum is replaced by a single unit, so that
  the shift stays short.\<close>

definition dec_normalize :: "nat \<times> int \<Rightarrow> nat \<times> int \<Rightarrow> nat \<times> nat \<times> int" where
  "dec_normalize op1 op2 =
     (let (c1, e1) = op1; (c2, e2) = op2;
          swap = (e1 < e2);
          (tc, te) = (if swap then op2 else op1);
          (oc, oe) = (if swap then op1 else op2);
          ex = te + min (- 1) (int (ndigits tc) - prec - 2);
          small = (int (ndigits oc) + oe - 1 < ex);
          oc' = (if small then 1 else oc);
          oe' = (if small then ex else oe);
          tc' = tc * 10 ^ nat (te - oe')
      in if swap then (oc', tc', oe') else (tc', oc', oe'))"

text \<open>\<open>a + b\<close>\<close>

definition dec_add :: "decimal \<Rightarrow> decimal \<Rightarrow> signal + decimal" where
  "dec_add a b =
     (case (a, b) of
        (NaN sa, _) \<Rightarrow>
          if sa \<or> (case b of NaN sb \<Rightarrow> sb | _ \<Rightarrow> False) then Inl InvalidOperation
          else Inr (NaN False)
      | (_, NaN sb) \<Rightarrow> if sb then Inl InvalidOperation else Inr (NaN False)
      | (Infinity sa, Infinity sb) \<Rightarrow> if sa \<noteq> sb then Inl InvalidOperation else Inr a
      | (Infinity sa, Finite sb cb eb) \<Rightarrow> Inr a
      | (Finite sa ca ea, Infinity sb) \<Rightarrow> Inr b
      | (Finite sa ca ea, Finite sb cb eb) \<Rightarrow>
          let ex = min ea eb
          in if ca = 0 \<and> cb = 0 then dec_fix (Finite (sa \<and> sb) 0 ex)
             else if ca = 0 then dec_fix (rescale (max ex (eb - prec - 1)) ROUND_HALF_EVEN b)
             else if cb = 0 then dec_fix (rescale (max ex (ea - prec - 1)) ROUND_HALF_EVEN a)
             else
               let (n1, n2, e) = dec_normalize (ca, ea) (cb, eb)
               in if sa \<noteq> sb then
                    if n1 = n2 then dec_fix (Finite False 0 ex)
                    else if n1 < n2 then dec_fix (Finite sb (n2 - n1) e)
                    else dec_fix (Finite sa (n1 - n2) e)
                  else dec_fix (Finite sa (n1 + n2) e))"

text \<open>\<open>a.quantize(q, rounding)\<close> for a finite \<open>q\<close> of exponent \<open>ex\<close>
  (\<open>Decimal("0.01")\<close> has exponent \<open>-2\<close>). A result that needs more digits than the
  precision is an \<open>InvalidOperation\<close>, and so is an infinite operand.\<close>

definition quantize :: "decimal \<Rightarrow> int \<Rightarrow> rounding \<Rightarrow> signal + decimal" where
  "quantize a ex m =
     (case a of
        NaN sa \<Rightarrow> if sa then Inl InvalidOperation else Inr (NaN False)
      | Infinity sa \<Rightarrow> Inl InvalidOperation
      | Finite s c e \<Rightarrow>
          if \<not> (Etiny \<le> ex \<and> ex \<le> Emax) then Inl InvalidOperation
          else if c = 0 then dec_fix (Finite s 0 ex)
          else if Emax < adjusted c e then Inl InvalidOperation
          else if prec < adjusted c e - ex + 1 then Inl InvalidOperation
          else
            (case rescale ex m a of
               Finite s' c' e' \<Rightarrow>
                 if Emax < adjusted c' e' then Inl InvalidOperation
                 else if prec < int (ndigits c') then Inl InvalidOperation
                 else dec_fix (Finite s' c' e')
             | other \<Rightarrow> Inr other))"

text \<open>\<open>a <= 0\<close>: an ordering comparison with a NaN is an \<open>InvalidOperation\<close>.\<close>

definition dec_le_zero :: "decimal \<Rightarrow> signal + bool" where
  "dec_le_zero a =
     (case a of
        NaN sa \<Rightarrow> Inl InvalidOperation
      | Infinity sa \<Rightarrow> Inr sa
      | Finite s c e \<Rightarrow> Inr (c = 0 \<or> s))"

text \<open>\<open>f"{a:.2f}"\<close>: \<open>Decimal.__format__\<close> rescales to two places with the
  context's rounding, which is \<open>ROUND_HALF_EVEN\<close>, and prints sign, integer digits,
  point and two fraction digits.\<close>

definition fixed_text :: "bool \<Rightarrow> nat \<Rightarrow> string" where
  "fixed_text s c =
     (if s then ''-'' else []) @ show_nat (c div 100) @ ''.''
       @ [digit_char (c div 10 mod 10), digit_char (c mod 10)]"

definition format_2f :: "decimal \<Rightarrow> string" where
  "format_2f a =
     (case rescale (- 2) ROUND_HALF_EVEN a of
        Finite s c e \<Rightarrow> fixed_text s c
      | Infinity s \<Rightarrow> (if s then ''-'' else '''') @ ''Infinity''
      | NaN sa \<Rightarrow> (if sa then ''sNaN'' else ''NaN''))"

text \<open>
  \<open>Decimal(s)\<close>: surrounding whitespace and every underscore are dropped; then a sign,
  and digits with an optional point and an optional exponent, or an infinity, or a
  NaN, in any letter case. The conversion is exact. The bounds are those of the C
  implementation on a 64-bit build (\<open>MAX_EMAX\<close>, \<open>MIN_ETINY\<close>), beyond which the
  constructor raises \<open>InvalidOperation\<close> as it does on a malformed text; \<open>None\<close>
  stands for that exception.
\<close>

definition MAX_EMAX :: int where "MAX_EMAX = 999999999999999999"
definition MIN_ETINY :: int where "MIN_ETINY = - 1999999999999999997"

definition split_sign :: "string \<Rightarrow> bool \<times> string" where
  "split_sign s =
     (case s of
        [] \<Rightarrow> (False, s)
      | c # r \<Rightarrow> if c = CHR ''-'' then (True, r) else if c = CHR ''+'' then (False, r)
                 else (False, s))"

definition parse_exponent :: "string \<Rightarrow> int option" where
  "parse_exponent s =
     (let (neg, ds) = split_sign s
      in if ds \<noteq> [] \<and> list_all is_digit ds
         then Some (if neg then - int (nat_of_digits ds) else int (nat_of_digits ds))
         else None)"

definition parse_number :: "bool \<Rightarrow> string \<Rightarrow> decimal option" where
  "parse_number neg b =
     (let mant = takeWhile (\<lambda>c. c \<noteq> CHR ''e'') b;
          rest = dropWhile (\<lambda>c. c \<noteq> CHR ''e'') b;
          intpart = takeWhile (\<lambda>c. c \<noteq> CHR ''.'') mant;
          frac = drop 1 (dropWhile (\<lambda>c. c \<noteq> CHR ''.'') mant)
      in if \<not> (list_all is_digit intpart \<and> list_all is_digit frac
                \<and> (intpart \<noteq> [] \<or> frac \<noteq> [])) then None
         else
           (case (if rest = [] then Some 0 else parse_exponent (drop 1 rest)) of
              None \<Rightarrow> None
            | Some x \<Rightarrow>
                let c = nat_of_digits (intpart @ frac);
                    e = x - int (length frac)
                in if MIN_ETINY \<le> e \<and> (if c = 0 then e \<le> MAX_EMAX
                                          else adjusted c e \<le> MAX_EMAX)
                   then Some (Finite neg c e) else None))"

definition Decimal :: "string \<Rightarrow> decimal option" where
  "Decimal v =
     (let (neg, body) = split_sign (remove_char CHR ''_'' (strip v));
          b = lower body
      in if b = ''inf'' \<or> b = ''infinity'' then Some (Infinity neg)
         else if startswith b ''nan'' \<and> list_all is_digit (drop 3 b) then Some (NaN False)
         else if startswith b ''snan'' \<and> list_all is_digit (drop 4 b) then Some (NaN True)
         else parse_number neg b)"

section \<open>Dates: \<open>datetime.strptime\<close> and \<open>date\<close>\<close>

datatype date = Date (year: nat) (month: nat) (day: nat)

text \<open>\<open>d1 <= d2\<close> on dates\<close>

definition date_le :: "date \<Rightarrow> date \<Rightarrow> bool" where
  "date_le a b =
     (year a < year b \<or> (year a = year b \<and>
        (month a < month b \<or> (month a = month b \<and> day a \<le> day b))))"

text \<open>\<open>d1 < d2\<close> on dates\<close>

definition date_less :: "date \<Rightarrow> date \<Rightarrow> bool" where
  "date_less a b = (date_le a b \<and> a \<noteq> b)"

definition is_leap :: "nat \<Rightarrow> bool" where
  "is_leap y = (y mod 4 = 0 \<and> (y mod 100 \<noteq> 0 \<or> y mod 400 = 0))"

definition days_in_month :: "nat \<Rightarrow> nat \<Rightarrow> nat" where
  "days_in_month y m =
     (if m = 2 then (if is_leap y then 29 else 28)
      else if m \<in> {4, 6, 9, 11} then 30 else 31)"

text \<open>\<open>date(year, month, day)\<close>, which raises \<open>ValueError\<close> outside the calendar\<close>

definition make_date :: "nat \<Rightarrow> nat \<Rightarrow> nat \<Rightarrow> date option" where
  "make_date y m d =
     (if 1 \<le> y \<and> y \<le> 9999 \<and> 1 \<le> m \<and> m \<le> 12 \<and> 1 \<le> d \<and> d \<le> days_in_month y m
      then Some (Date y m d) else None)"

text \<open>
  The directives of \<open>strptime\<close> are regular expressions: \<open>%m\<close> is
  \<open>1[0-2]|0[1-9]|[1-9]\<close>, \<open>%d\<close> is \<open>3[01]|[12]\d|0[1-9]|[1-9]| [1-9]\<close> and \<open>%Y\<close> is
  four digits. None of them matches the separator, so a text matches the format when
  the separator cuts it into exactly three fields and each field matches its directive.
\<close>

definition match_month :: "string \<Rightarrow> bool" where
  "match_month s =
     (case s of
        [a] \<Rightarrow> is_digit a \<and> a \<noteq> CHR ''0''
      | [a, b] \<Rightarrow> (a = CHR ''1'' \<and> b \<in> {CHR ''0'', CHR ''1'', CHR ''2''})
                 \<or> (a = CHR ''0'' \<and> is_digit b \<and> b \<noteq> CHR ''0'')
      | _ \<Rightarrow> False)"

definition match_day :: "string \<Rightarrow> bool" where
  "match_day s =
     (case s of
        [a] \<Rightarrow> is_digit a \<and> a \<noteq> CHR ''0''
      | [a, b] \<Rightarrow> (a = CHR ''3'' \<and> b \<in> {CHR ''0'', CHR ''1''})
                 \<or> (a \<in> {CHR ''1'', CHR ''2''} \<and> is_digit b)
                 \<or> (a \<in> {CHR ''0'', CHR '' ''} \<and> is_digit b \<and> b \<noteq> CHR ''0'')
      | _ \<Rightarrow> False)"

definition match_year :: "string \<Rightarrow> bool" where
  "match_year s = (length s = 4 \<and> list_all is_digit s)"

text \<open>\<open>s.split(sep)\<close>\<close>

fun split_on :: "char \<Rightarrow> string \<Rightarrow> string list" where
  "split_on sep [] = [[]]"
| "split_on sep (c # cs) =
     (if c = sep then [] # split_on sep cs
      else (case split_on sep cs of
              [] \<Rightarrow> [[c]]
            | w # ws \<Rightarrow> (c # w) # ws))"

text \<open>\<open>datetime.strptime(s, "%m/%d/%Y").date()\<close>; \<open>None\<close> is its \<open>ValueError\<close>.\<close>

definition strptime_mdY :: "string \<Rightarrow> date option" where
  "strptime_mdY s =
     (case split_on CHR ''/'' s of
        [m, d, y] \<Rightarrow>
          if match_month m \<and> match_day d \<and> match_year y
          then make_date (nat_of_digits y) (nat_of_digits m) (nat_of_digits (strip d))
          else None
      | _ \<Rightarrow> None)"

text \<open>\<open>datetime.strptime(s, "%Y-%m-%d").date()\<close>\<close>

definition strptime_Ymd :: "string \<Rightarrow> date option" where
  "strptime_Ymd s =
     (case split_on CHR ''-'' s of
        [y, m, d] \<Rightarrow>
          if match_year y \<and> match_month m \<and> match_day d
          then make_date (nat_of_digits y) (nat_of_digits m) (nat_of_digits (strip d))
          else None
      | _ \<Rightarrow> None)"

text \<open>\<open>str(n).zfill(w)\<close>\<close>

definition zfill :: "nat \<Rightarrow> nat \<Rightarrow> string" where
  "zfill w n = replicate (w - length (show_nat n)) CHR ''0'' @ show_nat n"

text \<open>\<open>d.isoformat()\<close>\<close>

definition isoformat :: "date \<Rightarrow> string" where
  "isoformat d = zfill 4 (year d) @ ''-'' @ zfill 2 (month d) @ ''-'' @ zfill 2 (day d)"

section \<open>The service: \<open>app/main.py\<close>\<close>

text \<open>
  The exceptions that reach the handler: the \<open>HTTPException\<close> the service raises
  itself, with its status code and detail, and a trapped signal of the decimal context.
\<close>

datatype exn = HTTPException nat string | DecimalException signal

definition signal_name :: "signal \<Rightarrow> string" where
  "signal_name sg = (case sg of InvalidOperation \<Rightarrow> ''InvalidOperation'' | Overflow \<Rightarrow> ''Overflow'')"

text \<open>\<open>f"{type(ex).__name__}: {ex}"\<close> for a decimal exception, whose argument is the
  list of the trapped signals\<close>

definition exception_text :: "signal \<Rightarrow> string" where
  "exception_text sg =
     signal_name sg @ '': [<class '' @ [CHR 0x27] @ ''decimal.'' @ signal_name sg
       @ [CHR 0x27] @ ''>]''"

text \<open>\<open>parse_decimal\<close>; the argument \<open>None\<close> is Python's \<open>None\<close>.\<close>

definition parse_decimal :: "string option \<Rightarrow> exn + decimal" where
  "parse_decimal so =
     (case so of
        None \<Rightarrow> Inr (Finite False 0 0)
      | Some s0 \<Rightarrow>
          let s1 = remove_char CHR '','' (strip s0);
              s2 = (if startswith s1 ''+'' then drop 1 s1 else s1)
          in (case Decimal s2 of
                Some d \<Rightarrow> Inr d
              | None \<Rightarrow> Inl (HTTPException 400 (''Invalid amount value: '' @ repr s2))))"

text \<open>\<open>parse_date\<close>\<close>

definition parse_date :: "string \<Rightarrow> exn + date" where
  "parse_date s =
     (case strptime_mdY (strip s) of
        Some d \<Rightarrow> Inr d
      | None \<Rightarrow>
          Inl (HTTPException 400 (''Invalid date value (expected MM/DD/YYYY): '' @ repr s)))"

text \<open>\<open>compute_tithe\<close>: the product, then \<open>quantize(Decimal("0.01"), ROUND_HALF_UP)\<close>\<close>

definition compute_tithe :: "decimal \<Rightarrow> decimal \<Rightarrow> signal + decimal" where
  "compute_tithe total_amount rate =
     (case dec_mul total_amount rate of
        Inl sg \<Rightarrow> Inl sg
      | Inr p \<Rightarrow> quantize p (- 2) ROUND_HALF_UP)"

text \<open>
  \<open>iter_csv_rows\<close>. Decoding the bytes and cutting them into records is the work of
  \<open>bytes.decode\<close> and \<open>csv.reader\<close>; the function \<open>reader\<close> stands for the two.
  The records are numbered from 1, empty ones are dropped after the numbering, and
  short ones are padded to five fields.
\<close>

type_synonym bytes = string
type_synonym row = "string list"

definition iter_csv_rows :: "(bytes \<Rightarrow> row list) \<Rightarrow> bytes \<Rightarrow> (nat \<times> row) list" where
  "iter_csv_rows reader file_bytes =
     map (\<lambda>(idx, r). (idx, if length r < 5 then r @ replicate (5 - length r) [] else r))
       (filter (\<lambda>(idx, r). r \<noteq> []) (enumerate 1 (reader file_bytes)))"

text \<open>An entry of \<open>matches\<close>\<close>

record match_entry =
  date :: string
  amount :: string
  description :: string

text \<open>The variables of the loop in \<open>tithing\<close>\<close>

record loop_state =
  matches :: "match_entry list"
  total :: decimal
  errors :: "string list"

text \<open>What the loop reads and does not change\<close>

record loop_config =
  start_date :: date
  end_date :: date
  needle :: string
  case_insensitive :: bool

text \<open>The two \<open>except\<close> clauses of the loop body\<close>

definition record_http :: "loop_state \<Rightarrow> nat \<Rightarrow> string \<Rightarrow> loop_state" where
  "record_http st line_no detail =
     st\<lparr>errors := errors st @ [''Line '' @ show_nat line_no @ '': '' @ detail]\<rparr>"

definition record_exception :: "loop_state \<Rightarrow> nat \<Rightarrow> signal \<Rightarrow> loop_state" where
  "record_exception st line_no sg =
     st\<lparr>errors := errors st @ [''Line '' @ show_nat line_no @ '': '' @ exception_text sg]\<rparr>"

definition record_exn :: "loop_state \<Rightarrow> nat \<Rightarrow> exn \<Rightarrow> loop_state" where
  "record_exn st line_no ex =
     (case ex of
        HTTPException code detail \<Rightarrow> record_http st line_no detail
      | DecimalException sg \<Rightarrow> record_exception st line_no sg)"

text \<open>Line 95: field \<open>i\<close> of \<open>(row + [""] * 5)[:5]\<close>, for \<open>i\<close> below 5\<close>

definition field :: "row \<Rightarrow> nat \<Rightarrow> string" where
  "field r i = take 5 (r @ replicate 5 []) ! i"

text \<open>One turn of the loop (lines 94 to 122): \<open>continue\<close> returns the state as it
  is, an exception returns it with one more diagnostic.\<close>

definition process_row :: "loop_config \<Rightarrow> loop_state \<Rightarrow> nat \<times> row \<Rightarrow> loop_state" where
  "process_row cfg st lr =
     (let (line_no, r) = lr;
          date_str = field r 0; amount_str = field r 1; desc = field r 4
      in case parse_date date_str of
           Inl ex \<Rightarrow> if line_no = 1 then st else record_exn st line_no ex
         | Inr txn_date \<Rightarrow>
             if \<not> (date_le (start_date cfg) txn_date \<and> date_le txn_date (end_date cfg)) then st
             else
               (case parse_decimal (Some amount_str) of
                  Inl ex \<Rightarrow> record_exn st line_no ex
                | Inr amt \<Rightarrow>
                    (case dec_le_zero amt of
                       Inl sg \<Rightarrow> record_exception st line_no sg
                     | Inr True \<Rightarrow> st
                     | Inr False \<Rightarrow>
                         let descr = strip desc;
                             hay = (if case_insensitive cfg then lower descr else descr)
                         in if contains (needle cfg) hay then
                              (case dec_add (total st) amt of
                                 Inl sg \<Rightarrow> record_exception st line_no sg
                               | Inr t \<Rightarrow>
                                   st\<lparr>total := t,
                                      matches := matches st @
                                        [\<lparr>date = isoformat txn_date,
                                          amount = format_2f amt,
                                          description = descr\<rparr>]\<rparr>)
                            else st)))"

text \<open>The whole loop\<close>

definition process_rows :: "loop_config \<Rightarrow> loop_state \<Rightarrow> (nat \<times> row) list \<Rightarrow> loop_state" where
  "process_rows cfg st lrs = foldl (process_row cfg) st lrs"

text \<open>The state before the loop (lines 89 to 91)\<close>

definition initial_state :: loop_state where
  "initial_state = \<lparr>matches = [], total = Finite False 0 0, errors = []\<rparr>"

text \<open>
  The request as the framework hands it over. \<open>rate_dec\<close> is \<open>Decimal(str(rate))\<close>
  and \<open>rate_percent\<close> is \<open>int(rate*100)\<close>, both computed from the binary float
  \<open>rate\<close>, which the framework has checked to lie between 0 and 1; \<open>csv_format\<close>
  says that \<open>format\<close> is \<open>"csv"\<close>.
\<close>

record request =
  upload :: bytes
  start :: string
  end_param :: string
  desc_contains :: string
  rate_dec :: decimal
  rate_percent :: nat
  case_insensitive_param :: bool
  csv_format :: bool

record json_body =
  filter_start :: string
  filter_end :: string
  filter_desc_contains :: string
  filter_rate :: decimal
  filter_case_insensitive :: bool
  json_count :: nat
  total_deposits :: string
  tithe :: string
  json_rows :: "match_entry list"
  json_errors :: "string list"

datatype response = JSONResponse json_body | StreamingResponse "row list"

text \<open>One line of the detailed report (lines 131 to 133)\<close>

definition report_row :: "decimal \<Rightarrow> match_entry \<Rightarrow> exn + row" where
  "report_row rate r =
     (case Decimal (amount r) of
        None \<Rightarrow> Inl (DecimalException InvalidOperation)
      | Some amt \<Rightarrow>
          (case compute_tithe amt rate of
             Inl sg \<Rightarrow> Inl (DecimalException sg)
           | Inr per \<Rightarrow> Inr [date r, format_2f amt, description r, format_2f per]))"

fun report_rows :: "decimal \<Rightarrow> match_entry list \<Rightarrow> exn + row list" where
  "report_rows rate [] = Inr []"
| "report_rows rate (r # rs) =
     (case report_row rate r of
        Inl ex \<Rightarrow> Inl ex
      | Inr line \<Rightarrow>
          (case report_rows rate rs of
             Inl ex \<Rightarrow> Inl ex
           | Inr rest \<Rightarrow> Inr (line # rest)))"

text \<open>Line 88 and the parsed bounds: what the loop is run with\<close>

definition loop_config_of :: "request \<Rightarrow> date \<Rightarrow> date \<Rightarrow> loop_config" where
  "loop_config_of req sd ed =
     \<lparr>start_date = sd, end_date = ed,
      needle = (if case_insensitive_param req then lower (desc_contains req)
                else desc_contains req),
      case_insensitive = case_insensitive_param req\<rparr>"

text \<open>Lines 88 to 122: the loop over the rows of the upload\<close>

definition run_loop :: "(bytes \<Rightarrow> row list) \<Rightarrow> request \<Rightarrow> date \<Rightarrow> date \<Rightarrow> loop_state" where
  "run_loop reader req sd ed =
     process_rows (loop_config_of req sd ed) initial_state (iter_csv_rows reader (upload req))"

text \<open>Lines 124 to 154: the tithe and the response. The rows of the detailed report
  are kept as the lists handed to \<open>writerow\<close>.\<close>

definition respond :: "request \<Rightarrow> date \<Rightarrow> date \<Rightarrow> loop_state \<Rightarrow> exn + response" where
  "respond req sd ed st =
     (case compute_tithe (total st) (rate_dec req) of
        Inl sg \<Rightarrow> Inl (DecimalException sg)
      | Inr t \<Rightarrow>
          if csv_format req then
            (case report_rows (rate_dec req) (matches st) of
               Inl ex \<Rightarrow> Inl ex
             | Inr body \<Rightarrow>
                 Inr (StreamingResponse
                   ([[''date'', ''amount'', ''description'',
                      ''tithe_'' @ show_nat (rate_percent req) @ ''pct_per_row'']]
                    @ body @ [[]]
                    @ [[''TOTAL'', format_2f (total st), [], format_2f t]])))
          else
            Inr (JSONResponse
              \<lparr>filter_start = isoformat sd, filter_end = isoformat ed,
               filter_desc_contains = desc_contains req,
               filter_rate = rate_dec req,
               filter_case_insensitive = case_insensitive_param req,
               json_count = length (matches st),
               total_deposits = format_2f (total st),
               tithe = format_2f t,
               json_rows = matches st,
               json_errors = errors st\<rparr>))"

text \<open>\<open>tithing\<close>: \<open>Inl\<close> is the exception that leaves the handler. The bounds are
  parsed and compared and the upload is checked before the loop starts.\<close>

definition tithing :: "(bytes \<Rightarrow> row list) \<Rightarrow> request \<Rightarrow> exn + response" where
  "tithing reader req =
     (case strptime_Ymd (start req) of
        None \<Rightarrow> Inl (HTTPException 400 ''Dates must be in YYYY-MM-DD format'')
      | Some sd \<Rightarrow>
          (case strptime_Ymd (end_param req) of
             None \<Rightarrow> Inl (HTTPException 400 ''Dates must be in YYYY-MM-DD format'')
           | Some ed \<Rightarrow>
               if date_less ed sd then Inl (HTTPException 400 ''end must be on/after start'')
               else if upload req = [] then Inl (HTTPException 400 ''Empty upload'')
               else respond req sd ed (run_loop reader req sd ed)))"

text \<open>What a response shows: the tithe, the total, and the lines of the detailed
  report between its header and its blank line.\<close>

definition reported_tithe :: "response \<Rightarrow> string" where
  "reported_tithe resp =
     (case resp of JSONResponse b \<Rightarrow> tithe b | StreamingResponse ls \<Rightarrow> last ls ! 3)"

definition reported_total :: "response \<Rightarrow> string" where
  "reported_total resp =
     (case resp of JSONResponse b \<Rightarrow> total_deposits b | StreamingResponse ls \<Rightarrow> last ls ! 1)"

definition report_lines :: "response \<Rightarrow> row list" where
  "report_lines resp =
     (case resp of JSONResponse b \<Rightarrow> [] | StreamingResponse ls \<Rightarrow> butlast (butlast (tl ls)))"

section \<open>Rounding to two places, on the rational numbers\<close>

text \<open>The value of a finite decimal\<close>

fun val :: "decimal \<Rightarrow> rat" where
  "val (Finite s c e) =
     (if s then - 1 else 1) * of_nat c * (if 0 \<le> e then 10 ^ nat e else 1 / 10 ^ nat (- e))"

text \<open>Rounding a non-negative rational to an integer: half-up takes a tie upwards,
  half-even takes it to the even neighbour.\<close>

definition half_up_int :: "rat \<Rightarrow> int" where
  "half_up_int y = \<lfloor>y + 1 / 2\<rfloor>"

definition half_even_int :: "rat \<Rightarrow> int" where
  "half_even_int y =
     (let f = \<lfloor>y\<rfloor>
      in if 1 / 2 < y - of_int f \<or> (y - of_int f = 1 / 2 \<and> odd f) then f + 1 else f)"

text \<open>Round-half-up to two places: the magnitude is rounded, so a tie goes away from
  zero.\<close>

definition round_half_up :: "rat \<Rightarrow> rat" where
  "round_half_up x = sgn x * of_int (half_up_int (\<bar>x\<bar> * 100)) / 100"

text \<open>Round-half-even to two places: a tie goes to the even hundredth.\<close>

definition round_half_even :: "rat \<Rightarrow> rat" where
  "round_half_even x = sgn x * of_int (half_even_int (\<bar>x\<bar> * 100)) / 100"

text \<open>The rounding that a mode of the decimal module stands for\<close>

definition round_int :: "rounding \<Rightarrow> rat \<Rightarrow> int" where
  "round_int m y = (case m of ROUND_HALF_UP \<Rightarrow> half_up_int y | ROUND_HALF_EVEN \<Rightarrow> half_even_int y)"

section \<open>Rows as the loop receives them\<close>

text \<open>Lines 43 and 44: a record of fewer than five fields, filled up with empty ones\<close>

definition padded :: "row \<Rightarrow> row" where
  "padded r = (if length r < 5 then r @ replicate (5 - length r) [] else r)"

text \<open>
  The filter stages in the words of the specification: a row passes when its date
  parses and lies within the inclusive range, its amount parses and is strictly
  positive, and its trimmed description contains the needle under the case rule.
\<close>

definition hay_of :: "loop_config \<Rightarrow> row \<Rightarrow> string" where
  "hay_of cfg r = (if case_insensitive cfg then lower (strip (field r 4)) else strip (field r 4))"

definition qualifies :: "loop_config \<Rightarrow> row \<Rightarrow> bool" where
  "qualifies cfg r =
     (case parse_date (field r 0) of
        Inl ex \<Rightarrow> False
      | Inr d \<Rightarrow>
          date_le (start_date cfg) d \<and> date_le d (end_date cfg)
          \<and> (case parse_decimal (Some (field r 1)) of
                Inl ex \<Rightarrow> False
              | Inr a \<Rightarrow> dec_le_zero a = Inr False)
          \<and> contains (needle cfg) (hay_of cfg r))"

text \<open>The amount of a row, and the entry that a matched row leaves in the list\<close>

definition amount_of :: "row \<Rightarrow> decimal" where
  "amount_of r = (case parse_decimal (Some (field r 1)) of Inr a \<Rightarrow> a | Inl ex \<Rightarrow> NaN False)"

definition entry_of :: "row \<Rightarrow> match_entry" where
  "entry_of r =
     \<lparr>date = (case parse_date (field r 0) of Inr d \<Rightarrow> isoformat d | Inl ex \<Rightarrow> []),
      amount = format_2f (amount_of r),
      description = strip (field r 4)\<rparr>"

section \<open>Evaluation on concrete inputs\<close>

lemmas text_eval = strip_def is_space_def lower_def lower_char_def remove_char_def
  is_digit_def digit_val_def digit_char_def nat_of_digits_def repr_def repr_char_def
  is_printable_def hex_digit_def Let_def

lemmas date_eval = strptime_mdY_def strptime_Ymd_def match_month_def match_day_def
  match_year_def make_date_def days_in_month_def is_leap_def date_le_def date_less_def
  isoformat_def zfill_def

lemmas decimal_eval = Decimal_def split_sign_def parse_number_def parse_exponent_def
  MAX_EMAX_def MIN_ETINY_def adjusted_def prec_def Emax_def Emin_def Etiny_def Etop_def
  round_coeff_def rescale_def dec_fix_def dec_mul_def dec_add_def dec_normalize_def
  quantize_def dec_le_zero_def format_2f_def fixed_text_def

lemmas service_eval = parse_decimal_def parse_date_def compute_tithe_def iter_csv_rows_def
  field_def record_http_def record_exception_def record_exn_def process_row_def
  process_rows_def initial_state_def signal_name_def exception_text_def
  enumerate_eq_zip upt_rec

section \<open>Rejected requests\<close>

text \<open>
  C7. When a bound of the date range does not parse, when the end date precedes the
  start date, or when the upload is empty, the call ends with an \<open>HTTPException\<close> of
  status 400 whose detail does not depend on the reader: no row is decoded or
  processed, and no response is produced.
\<close>

theorem request_rejected_before_loop:
  assumes "strptime_Ymd (start req) = None \<or> strptime_Ymd (end_param req) = None
           \<or> (\<exists>sd ed. strptime_Ymd (start req) = Some sd
                 \<and> strptime_Ymd (end_param req) = Some ed \<and> date_less ed sd)
           \<or> upload req = []"
  shows "\<exists>detail. \<forall>reader. tithing reader req = Inl (HTTPException 400 detail)"
proof (cases "strptime_Ymd (start req)")
  case None
  then show ?thesis by (simp add: tithing_def)
next
  case (Some sd)
  note sd = this
  show ?thesis
  proof (cases "strptime_Ymd (end_param req)")
    case None
    with sd show ?thesis by (simp add: tithing_def)
  next
    case (Some ed)
    show ?thesis
    proof (cases "date_less ed sd")
      case True
      with sd Some show ?thesis by (simp add: tithing_def)
    next
      case False
      with sd Some assms have "upload req = []" by auto
      with sd Some False show ?thesis by (simp add: tithing_def)
    qed
  qed
qed

theorem request_rejected_before_loop_witness:
  "strptime_Ymd ''2025-09-30'' = Some (Date 2025 9 30)
   \<and> strptime_Ymd ''2025-09-01'' = Some (Date 2025 9 1)
   \<and> date_less (Date 2025 9 1) (Date 2025 9 30)
   \<and> (\<exists>detail. \<forall>reader. tithing reader
         \<lparr>upload = ''09/15/2025,1500.00'', start = ''2025-09-30'', end_param = ''2025-09-01'',
          desc_contains = ''MILLWORK DEV PAYROLL'', rate_dec = Finite False 1 (- 1),
          rate_percent = 10, case_insensitive_param = True, csv_format = False\<rparr>
        = Inl (HTTPException 400 detail))"
proof -
  have a: "strptime_Ymd ''2025-09-30'' = Some (Date 2025 9 30)"
    by (simp add: text_eval date_eval)
  have b: "strptime_Ymd ''2025-09-01'' = Some (Date 2025 9 1)"
    by (simp add: text_eval date_eval)
  have c: "date_less (Date 2025 9 1) (Date 2025 9 30)"
    by (simp add: date_eval)
  show ?thesis
    using a b c request_rejected_before_loop
      [of "\<lparr>upload = ''09/15/2025,1500.00'', start = ''2025-09-30'', end_param = ''2025-09-01'',
          desc_contains = ''MILLWORK DEV PAYROLL'', rate_dec = Finite False 1 (- 1),
          rate_percent = 10, case_insensitive_param = True, csv_format = False\<rparr>"]
    by simp
qed

section \<open>The loop, row by row\<close>

lemma iter_csv_rows_eq:
  "iter_csv_rows reader b
     = map (\<lambda>(idx, r). (idx, padded r)) (filter (\<lambda>(idx, r). r \<noteq> []) (enumerate 1 (reader b)))"
  by (simp add: iter_csv_rows_def padded_def)

lemma iter_csv_rows_split:
  assumes "reader b = before @ r # after" and "r \<noteq> []"
  shows "\<exists>post. iter_csv_rows reader b
           = iter_csv_rows (\<lambda>x. before) b @ (length before + 1, padded r) # post"
  using assms by (simp add: iter_csv_rows_eq enumerate_append_eq)

lemma process_rows_append:
  "process_rows cfg st (xs @ ys) = process_rows cfg (process_rows cfg st xs) ys"
  by (simp add: process_rows_def)

lemma process_rows_Cons:
  "process_rows cfg st (x # xs) = process_rows cfg (process_row cfg st x) xs"
  by (simp add: process_rows_def)

lemma field_padded_0: "r \<noteq> [] \<Longrightarrow> field (padded r) 0 = hd r"
  by (cases r) (simp_all add: field_def padded_def)

lemma errors_process_row: "\<exists>es. errors (process_row cfg st lr) = errors st @ es"
  by (cases lr)
    (auto simp: process_row_def Let_def record_exn_def record_http_def record_exception_def
      split: sum.splits bool.splits exn.splits)

lemma errors_process_rows: "\<exists>es. errors (process_rows cfg st lrs) = errors st @ es"
proof (induction lrs arbitrary: st)
  case Nil
  then show ?case by (simp add: process_rows_def)
next
  case (Cons lr lrs)
  from errors_process_row [of cfg st lr] obtain es1
    where a: "errors (process_row cfg st lr) = errors st @ es1" by blast
  from Cons [of "process_row cfg st lr"] obtain es2
    where b: "errors (process_rows cfg (process_row cfg st lr) lrs)
                = errors (process_row cfg st lr) @ es2" by blast
  from a b show ?case by (simp add: process_rows_Cons)
qed

lemma errors_kept:
  "e \<in> set (errors st) \<Longrightarrow> e \<in> set (errors (process_rows cfg st lrs))"
  using errors_process_rows [of cfg st lrs] by auto

lemma process_row_date_failure:
  assumes "parse_date (field r 0) = Inl (HTTPException code detail)"
  shows "process_row cfg st (n, r)
         = (if n = 1 then st
            else st\<lparr>errors := errors st @ [''Line '' @ show_nat n @ '': '' @ detail]\<rparr>)"
  using assms by (simp add: process_row_def record_exn_def record_http_def)

section \<open>Rows whose date does not parse\<close>

text \<open>
  C5. Let a record of the upload have a date field that does not parse. When it is the
  first record of the upload it is numbered 1, and the loop ends as if the record were
  not there: no diagnostic is recorded. When records precede it, it is numbered one more
  than their count, the loop goes on from the state reached before it with exactly one
  diagnostic added, which names that number, and the matches and the total untouched,
  and the diagnostic is among the errors when the loop ends, also for the loop as
  \<open>tithing\<close> runs it.
\<close>

theorem date_failure_header_heuristic:
  assumes "reader b = before @ r # after" and "r \<noteq> []"
    and "parse_date (hd r) = Inl (HTTPException code detail)"
  shows "\<exists>post. iter_csv_rows reader b
             = iter_csv_rows (\<lambda>x. before) b @ (length before + 1, padded r) # post
           \<and> (before = [] \<longrightarrow>
                process_rows cfg st (iter_csv_rows reader b) = process_rows cfg st post)
           \<and> (before \<noteq> [] \<longrightarrow>
                process_rows cfg st (iter_csv_rows reader b)
                  = process_rows cfg
                      ((process_rows cfg st (iter_csv_rows (\<lambda>x. before) b))
                         \<lparr>errors := errors (process_rows cfg st (iter_csv_rows (\<lambda>x. before) b))
                            @ [''Line '' @ show_nat (length before + 1) @ '': '' @ detail]\<rparr>)
                      post
                \<and> (''Line '' @ show_nat (length before + 1) @ '': '' @ detail)
                    \<in> set (errors (process_rows cfg st (iter_csv_rows reader b)))
                \<and> (b = upload req \<and> cfg = loop_config_of req sd ed \<and> st = initial_state \<longrightarrow>
                    (''Line '' @ show_nat (length before + 1) @ '': '' @ detail)
                      \<in> set (errors (run_loop reader req sd ed))))"
proof -
  from iter_csv_rows_split [of reader b before r "after", OF assms(1,2)] obtain post
    where sp: "iter_csv_rows reader b
                 = iter_csv_rows (\<lambda>x. before) b @ (length before + 1, padded r) # post"
    by blast
  have pd: "parse_date (field (padded r) 0) = Inl (HTTPException code detail)"
    using assms(2,3) by (simp add: field_padded_0)
  define pre where "pre = iter_csv_rows (\<lambda>x. before) b"
  define msg where "msg = ''Line '' @ show_nat (length before + 1) @ '': '' @ detail"
  define st1 where "st1 = process_rows cfg st pre"
  have run: "process_rows cfg st (iter_csv_rows reader b)
               = process_rows cfg (process_row cfg st1 (length before + 1, padded r)) post"
    by (simp add: sp process_rows_append process_rows_Cons pre_def st1_def)
  have first: "before = [] \<longrightarrow>
      process_rows cfg st (iter_csv_rows reader b) = process_rows cfg st post"
  proof
    assume e: "before = []"
    then have "st1 = st"
      by (simp add: st1_def pre_def iter_csv_rows_def process_rows_def enumerate_eq_zip)
    with e run process_row_date_failure [OF pd, of cfg st 1] show
      "process_rows cfg st (iter_csv_rows reader b) = process_rows cfg st post"
      by simp
  qed
  have later: "before \<noteq> [] \<longrightarrow>
      process_rows cfg st (iter_csv_rows reader b)
        = process_rows cfg (st1\<lparr>errors := errors st1 @ [msg]\<rparr>) post
      \<and> msg \<in> set (errors (process_rows cfg st (iter_csv_rows reader b)))
      \<and> (b = upload req \<and> cfg = loop_config_of req sd ed \<and> st = initial_state \<longrightarrow>
            msg \<in> set (errors (run_loop reader req sd ed)))"
  proof
    assume ne: "before \<noteq> []"
    then have n: "length before + 1 \<noteq> 1" by simp
    have eq: "process_rows cfg st (iter_csv_rows reader b)
        = process_rows cfg (st1\<lparr>errors := errors st1 @ [msg]\<rparr>) post"
      using run process_row_date_failure [OF pd, of cfg st1 "length before + 1"] n
      by (simp add: msg_def)
    have "msg \<in> set (errors (st1\<lparr>errors := errors st1 @ [msg]\<rparr>))" by simp
    then have mem: "msg \<in> set (errors (process_rows cfg st (iter_csv_rows reader b)))"
      unfolding eq by (rule errors_kept)
    then have "b = upload req \<and> cfg = loop_config_of req sd ed \<and> st = initial_state \<longrightarrow>
            msg \<in> set (errors (run_loop reader req sd ed))"
      by (auto simp: run_loop_def)
    with eq mem show "process_rows cfg st (iter_csv_rows reader b)
        = process_rows cfg (st1\<lparr>errors := errors st1 @ [msg]\<rparr>) post
      \<and> msg \<in> set (errors (process_rows cfg st (iter_csv_rows reader b)))
      \<and> (b = upload req \<and> cfg = loop_config_of req sd ed \<and> st = initial_state \<longrightarrow>
            msg \<in> set (errors (run_loop reader req sd ed)))"
      by blast
  qed
  from sp first later show ?thesis
    unfolding pre_def st1_def msg_def by blast
qed

theorem date_failure_header_heuristic_witness:
  "parse_date (hd [''Pending'', ''10.00'', ''*'', [], ''MILLWORK DEV PAYROLL''])
     = Inl (HTTPException 400
         (''Invalid date value (expected MM/DD/YYYY): '' @ [CHR 0x27] @ ''Pending'' @ [CHR 0x27]))
   \<and> (''Line 3: Invalid date value (expected MM/DD/YYYY): '' @ [CHR 0x27] @ ''Pending''
         @ [CHR 0x27])
       \<in> set (errors (process_rows
           \<lparr>start_date = Date 2025 9 1, end_date = Date 2025 9 30,
            needle = ''millwork dev payroll'', case_insensitive = True\<rparr>
           \<lparr>matches = [], total = Finite False 0 0, errors = [''earlier'']\<rparr>
           (iter_csv_rows
              (\<lambda>b. [[''Date'', ''Amount'', ''Type'', ''Category'', ''Description''],
                    [''09/15/2025'', ''1500.00'', ''*'', [], ''MILLWORK DEV PAYROLL #123''],
                    [''Pending'', ''10.00'', ''*'', [], ''MILLWORK DEV PAYROLL''],
                    [''09/20/2025'', ''-200.00'', ''*'', [], ''UNRELATED DEBIT'']])
              ''Date,Amount'')))"
proof -
  let ?hdr = "[''Date'', ''Amount'', ''Type'', ''Category'', ''Description'']"
  let ?r2 = "[''09/15/2025'', ''1500.00'', ''*'', [], ''MILLWORK DEV PAYROLL #123'']"
  let ?bad = "[''Pending'', ''10.00'', ''*'', [], ''MILLWORK DEV PAYROLL'']"
  let ?r4 = "[''09/20/2025'', ''-200.00'', ''*'', [], ''UNRELATED DEBIT'']"
  let ?rd = "\<lambda>b::bytes. [?hdr, ?r2, ?bad, ?r4]"
  let ?cfg = "\<lparr>start_date = Date 2025 9 1, end_date = Date 2025 9 30,
            needle = ''millwork dev payroll'', case_insensitive = True\<rparr>"
  let ?st = "\<lparr>matches = [], total = Finite False 0 0, errors = [''earlier'']\<rparr>"
  have h1: "?rd ''Date,Amount'' = [?hdr, ?r2] @ ?bad # [?r4]" by simp
  have h2: "?bad \<noteq> []" by simp
  have h3: "parse_date (hd ?bad)
     = Inl (HTTPException 400
         (''Invalid date value (expected MM/DD/YYYY): '' @ [CHR 0x27] @ ''Pending'' @ [CHR 0x27]))"
    by (simp add: text_eval date_eval parse_date_def)
  have n: "show_nat (length [?hdr, ?r2] + 1) = ''3''"
    by (simp add: show_nat.simps digit_char_def)
  have "[?hdr, ?r2] \<noteq> []" by simp
  with date_failure_header_heuristic
      [where reader = ?rd and b = "''Date,Amount''" and before = "[?hdr, ?r2]" and r = ?bad
         and after = "[?r4]" and cfg = ?cfg and st = ?st, OF h1 h2 h3]
  have "(''Line '' @ show_nat (length [?hdr, ?r2] + 1) @ '': ''
           @ ''Invalid date value (expected MM/DD/YYYY): '' @ [CHR 0x27] @ ''Pending''
           @ [CHR 0x27])
       \<in> set (errors (process_rows ?cfg ?st (iter_csv_rows ?rd ''Date,Amount'')))"
    by blast
  with h3 show ?thesis unfolding n by simp
qed

section \<open>Empty amount text\<close>

text \<open>
  C2. An empty amount text is not normalised to zero: \<open>parse_decimal\<close> fails on it with
  the invalid-amount \<open>HTTPException\<close>, and only Python's \<open>None\<close> gives zero. A row
  whose amount field is missing is padded with the empty text, so in the loop it ends
  as a diagnostic and is not skipped silently.
\<close>

theorem parse_decimal_empty_text_fails:
  "parse_decimal (Some []) = Inl (HTTPException 400 (''Invalid amount value: '' @ [CHR 0x27, CHR 0x27]))
   \<and> parse_decimal None = Inr (Finite False 0 0)
   \<and> process_rows
        \<lparr>start_date = Date 2025 9 1, end_date = Date 2025 9 30,
         needle = ''millwork dev payroll'', case_insensitive = True\<rparr>
        initial_state
        (iter_csv_rows
           (\<lambda>b. [[''Date'', ''Amount'', ''Type'', ''Category'', ''Description''], [''09/15/2025'']])
           ''Date,Amount,Type,Category,Description'')
       = \<lparr>matches = [], total = Finite False 0 0,
          errors = [''Line 2: Invalid amount value: '' @ [CHR 0x27, CHR 0x27]]\<rparr>"
  by (simp add: text_eval date_eval decimal_eval service_eval show_nat.simps)

section \<open>Rows whose amount does not parse\<close>

lemma field_padded: "i < 5 \<Longrightarrow> field (padded r) i = field r i"
  by (auto simp: field_def padded_def nth_append)





section \<open>The match list\<close>

lemmas char_eval = char_of_eq_iff

lemma process_row_qualifies:
  assumes "qualifies cfg r" and "dec_add (total st) (amount_of r) = Inr t"
  shows "process_row cfg st (n, r) = st\<lparr>total := t, matches := matches st @ [entry_of r]\<rparr>"
  using assms
  by (auto simp: qualifies_def process_row_def amount_of_def entry_of_def hay_of_def Let_def
      split: sum.splits bool.splits)

lemma process_row_overflow:
  assumes "qualifies cfg r" and "dec_add (total st) (amount_of r) = Inl sg"
  shows "process_row cfg st (n, r) = record_exception st n sg"
  using assms
  by (auto simp: qualifies_def process_row_def amount_of_def entry_of_def hay_of_def Let_def
      split: sum.splits bool.splits)

lemma process_row_not_qualifies:
  assumes "\<not> qualifies cfg r"
  shows "matches (process_row cfg st (n, r)) = matches st
         \<and> total (process_row cfg st (n, r)) = total st"
  using assms
  by (auto simp: qualifies_def process_row_def hay_of_def Let_def record_exn_def
      record_http_def record_exception_def split: sum.splits bool.splits exn.splits)








section \<open>Rows that are matched\<close>

lemma matches_process_row: "\<exists>ms. matches (process_row cfg st lr) = matches st @ ms"
  by (cases lr)
    (auto simp: process_row_def Let_def record_exn_def record_http_def record_exception_def
      split: sum.splits bool.splits exn.splits)

lemma matches_process_rows_prefix: "\<exists>ms. matches (process_rows cfg st lrs) = matches st @ ms"
proof (induction lrs arbitrary: st)
  case Nil
  then show ?case by (simp add: process_rows_def)
next
  case (Cons lr lrs)
  from matches_process_row [of cfg st lr] obtain ms1
    where a: "matches (process_row cfg st lr) = matches st @ ms1" by blast
  from Cons [of "process_row cfg st lr"] obtain ms2
    where b: "matches (process_rows cfg (process_row cfg st lr) lrs)
                = matches (process_row cfg st lr) @ ms2" by blast
  from a b show ?case by (simp add: process_rows_Cons)
qed

lemma matches_kept:
  "m \<in> set (matches st) \<Longrightarrow> m \<in> set (matches (process_rows cfg st lrs))"
  using matches_process_rows_prefix [of cfg st lrs] by auto

lemma qualifies_padded: "qualifies cfg (padded r) = qualifies cfg r"
  by (simp add: qualifies_def hay_of_def field_padded cong: sum.case_cong)

lemma amount_of_padded: "amount_of (padded r) = amount_of r"
  by (simp add: amount_of_def field_padded)

lemma entry_of_padded: "entry_of (padded r) = entry_of r"
  by (simp add: entry_of_def amount_of_padded field_padded)

lemma loop_row_matched:
  assumes "reader b = before @ r # after" and "r \<noteq> []" and "qualifies cfg r"
    and "dec_add (total (process_rows cfg st (iter_csv_rows (\<lambda>x. before) b))) (amount_of r) = Inr t"
  shows "\<exists>post. iter_csv_rows reader b
             = iter_csv_rows (\<lambda>x. before) b @ (length before + 1, padded r) # post
           \<and> process_rows cfg st (iter_csv_rows reader b)
               = process_rows cfg
                   ((process_rows cfg st (iter_csv_rows (\<lambda>x. before) b))
                      \<lparr>total := t,
                       matches := matches (process_rows cfg st (iter_csv_rows (\<lambda>x. before) b))
                                    @ [entry_of r]\<rparr>)
                   post
           \<and> entry_of r \<in> set (matches (process_rows cfg st (iter_csv_rows reader b)))"
proof -
  from iter_csv_rows_split [of reader b before r "after", OF assms(1,2)] obtain post
    where sp: "iter_csv_rows reader b
                 = iter_csv_rows (\<lambda>x. before) b @ (length before + 1, padded r) # post"
    by blast
  define st1 where "st1 = process_rows cfg st (iter_csv_rows (\<lambda>x. before) b)"
  have q: "qualifies cfg (padded r)" using assms(3) by (simp add: qualifies_padded)
  have ad: "dec_add (total st1) (amount_of (padded r)) = Inr t"
    using assms(4) by (simp add: amount_of_padded st1_def)
  have run: "process_rows cfg st (iter_csv_rows reader b)
               = process_rows cfg (process_row cfg st1 (length before + 1, padded r)) post"
    by (simp add: sp process_rows_append process_rows_Cons st1_def)
  have eq: "process_rows cfg st (iter_csv_rows reader b)
      = process_rows cfg (st1\<lparr>total := t, matches := matches st1 @ [entry_of r]\<rparr>) post"
    using run process_row_qualifies [OF q ad, of "length before + 1"]
    by (simp add: entry_of_padded)
  have "entry_of r \<in> set (matches (st1\<lparr>total := t, matches := matches st1 @ [entry_of r]\<rparr>))"
    by simp
  then have "entry_of r \<in> set (matches (process_rows cfg st (iter_csv_rows reader b)))"
    unfolding eq by (rule matches_kept)
  with sp eq show ?thesis unfolding st1_def by blast
qed

lemma date_le_refl: "date_le d d"
  by (simp add: date_le_def)

lemma date_le_total: "\<not> date_less e s \<Longrightarrow> date_le s e"
  by (cases s; cases e) (auto simp: date_le_def date_less_def)

lemma contains_Nil: "contains [] h"
  by (cases h) simp_all

lemma field_0: "r \<noteq> [] \<Longrightarrow> field r 0 = hd r"
  by (cases r) (simp_all add: field_def)

text \<open>
  C8, as amended. Let a record of the upload have a date that parses to exactly the
  start or exactly the end of the range (the range being one that \<open>tithing\<close> accepts,
  its end not before its start), an amount that parses and is strictly positive, and
  a description that contains the needle, and suppose that adding the amount to the
  total the loop has reached does not overflow the decimal context. Then the date
  passes the range test, the loop goes on from the state reached before the record
  with the new total and the record's entry added to the matches, and the entry is
  among the matches when the loop ends, also in the loop as \<open>tithing\<close> runs it.
\<close>

theorem boundary_dates_are_included:
  assumes "reader b = before @ r # after" and "r \<noteq> []"
    and "parse_date (hd r) = Inr d"
    and "d = start_date cfg \<or> d = end_date cfg"
    and "\<not> date_less (end_date cfg) (start_date cfg)"
    and "parse_decimal (Some (field r 1)) = Inr a" and "dec_le_zero a = Inr False"
    and "contains (needle cfg) (hay_of cfg r)"
    and "dec_add (total (process_rows cfg st (iter_csv_rows (\<lambda>x. before) b))) a = Inr t"
  shows "date_le (start_date cfg) d \<and> date_le d (end_date cfg)
         \<and> (\<exists>post. iter_csv_rows reader b
               = iter_csv_rows (\<lambda>x. before) b @ (length before + 1, padded r) # post
             \<and> process_rows cfg st (iter_csv_rows reader b)
                 = process_rows cfg
                     ((process_rows cfg st (iter_csv_rows (\<lambda>x. before) b))
                        \<lparr>total := t,
                         matches := matches (process_rows cfg st (iter_csv_rows (\<lambda>x. before) b))
                           @ [\<lparr>date = isoformat d, amount = format_2f a,
                                description = strip (field r 4)\<rparr>]\<rparr>)
                     post
             \<and> \<lparr>date = isoformat d, amount = format_2f a, description = strip (field r 4)\<rparr>
                 \<in> set (matches (process_rows cfg st (iter_csv_rows reader b))))
         \<and> (b = upload req \<and> cfg = loop_config_of req sd ed \<and> st = initial_state \<longrightarrow>
              \<lparr>date = isoformat d, amount = format_2f a, description = strip (field r 4)\<rparr>
                 \<in> set (matches (run_loop reader req sd ed)))"
proof -
  have rg: "date_le (start_date cfg) d \<and> date_le d (end_date cfg)"
    using assms(4) date_le_total [OF assms(5)] by (auto simp: date_le_refl)
  have pd: "parse_date (field r 0) = Inr d" using assms(2,3) by (simp add: field_0)
  have q: "qualifies cfg r"
    using pd rg assms(6,7,8) by (simp add: qualifies_def)
  have am: "amount_of r = a" using assms(6) by (simp add: amount_of_def)
  have en: "entry_of r = \<lparr>date = isoformat d, amount = format_2f a, description = strip (field r 4)\<rparr>"
    using pd am by (simp add: entry_of_def)
  from loop_row_matched [of reader b before r "after" cfg st t, OF assms(1,2) q] assms(9)
  have lp: "\<exists>post. iter_csv_rows reader b
               = iter_csv_rows (\<lambda>x. before) b @ (length before + 1, padded r) # post
             \<and> process_rows cfg st (iter_csv_rows reader b)
                 = process_rows cfg
                     ((process_rows cfg st (iter_csv_rows (\<lambda>x. before) b))
                        \<lparr>total := t,
                         matches := matches (process_rows cfg st (iter_csv_rows (\<lambda>x. before) b))
                           @ [\<lparr>date = isoformat d, amount = format_2f a,
                                description = strip (field r 4)\<rparr>]\<rparr>)
                     post
             \<and> \<lparr>date = isoformat d, amount = format_2f a, description = strip (field r 4)\<rparr>
                 \<in> set (matches (process_rows cfg st (iter_csv_rows reader b)))"
    unfolding am en by blast
  then have rl: "b = upload req \<and> cfg = loop_config_of req sd ed \<and> st = initial_state \<longrightarrow>
              \<lparr>date = isoformat d, amount = format_2f a, description = strip (field r 4)\<rparr>
                 \<in> set (matches (run_loop reader req sd ed))"
    by (auto simp: run_loop_def)
  from rg lp rl show ?thesis by blast
qed

theorem boundary_dates_are_included_witness:
  "\<lparr>date = ''2025-09-30'', amount = ''100.00'', description = ''MILLWORK DEV PAYROLL #9''\<rparr>
     \<in> set (matches (process_rows
          \<lparr>start_date = Date 2025 9 1, end_date = Date 2025 9 30,
           needle = ''millwork dev payroll'', case_insensitive = True\<rparr>
          \<lparr>matches = [\<lparr>date = ''2025-09-01'', amount = ''0.00'', description = ''EARLIER''\<rparr>],
           total = Finite False 0 0, errors = [''earlier'']\<rparr>
          (iter_csv_rows
             (\<lambda>b. [[''Date'', ''Amount'', ''Type'', ''Category'', ''Description''],
                   [''09/10/2025'', ''-20.00'', ''*'', [], ''UNRELATED DEBIT''],
                   [''09/30/2025'', ''100.00'', ''*'', [], ''MILLWORK DEV PAYROLL #9''],
                   [''10/01/2025'', ''75.00'', ''*'', [], ''MILLWORK DEV PAYROLL #10'']])
             ''Date,Amount'')))"
proof -
  let ?hdr = "[''Date'', ''Amount'', ''Type'', ''Category'', ''Description'']"
  let ?r2 = "[''09/10/2025'', ''-20.00'', ''*'', [], ''UNRELATED DEBIT'']"
  let ?r3 = "[''09/30/2025'', ''100.00'', ''*'', [], ''MILLWORK DEV PAYROLL #9'']"
  let ?r4 = "[''10/01/2025'', ''75.00'', ''*'', [], ''MILLWORK DEV PAYROLL #10'']"
  let ?rd = "\<lambda>b::bytes. [?hdr, ?r2, ?r3, ?r4]"
  let ?cfg = "\<lparr>start_date = Date 2025 9 1, end_date = Date 2025 9 30,
            needle = ''millwork dev payroll'', case_insensitive = True\<rparr>"
  let ?st = "\<lparr>matches = [\<lparr>date = ''2025-09-01'', amount = ''0.00'', description = ''EARLIER''\<rparr>],
       total = Finite False 0 0, errors = [''earlier'']\<rparr>"
  have h1: "?rd ''Date,Amount'' = [?hdr, ?r2] @ ?r3 # [?r4]" by simp
  have h2: "?r3 \<noteq> []" by simp
  have h3: "parse_date (hd ?r3) = Inr (Date 2025 9 30)"
    by (simp add: parse_date_def text_eval date_eval)
  have h4: "Date 2025 9 30 = start_date ?cfg \<or> Date 2025 9 30 = end_date ?cfg" by simp
  have h5: "\<not> date_less (end_date ?cfg) (start_date ?cfg)" by (simp add: date_less_def date_le_def)
  have h6: "parse_decimal (Some (field ?r3 1)) = Inr (Finite False 10000 (- 2))"
    by (simp add: field_def parse_decimal_def text_eval decimal_eval ndigits.simps)
  have h7: "dec_le_zero (Finite False 10000 (- 2)) = Inr False"
    by (simp add: decimal_eval)
  have h8: "contains (needle ?cfg) (hay_of ?cfg ?r3)"
    by (simp add: hay_of_def field_def text_eval char_eval)
  have q1: "\<not> qualifies ?cfg ?hdr"
    by (simp add: qualifies_def field_def parse_date_def text_eval date_eval)
  have q2: "\<not> qualifies ?cfg ?r2"
    by (simp add: qualifies_def hay_of_def field_def parse_date_def parse_decimal_def
        text_eval date_eval decimal_eval ndigits.simps char_eval)
  have it: "iter_csv_rows (\<lambda>x. [?hdr, ?r2]) ''Date,Amount'' = [(1, ?hdr), (2, ?r2)]"
    by (simp add: iter_csv_rows_def enumerate_eq_zip upt_rec)
  have pre: "total (process_rows ?cfg ?st (iter_csv_rows (\<lambda>x. [?hdr, ?r2]) ''Date,Amount''))
               = Finite False 0 0"
    using process_row_not_qualifies [OF q1, of ?st 1]
      process_row_not_qualifies [OF q2, of "process_row ?cfg ?st (1, ?hdr)" 2]
    by (simp add: it process_rows_def)
  have h9: "dec_add (total (process_rows ?cfg ?st (iter_csv_rows (\<lambda>x. [?hdr, ?r2]) ''Date,Amount'')))
              (Finite False 10000 (- 2)) = Inr (Finite False 10000 (- 2))"
    unfolding pre by (simp add: decimal_eval ndigits.simps)
  have iso: "isoformat (Date 2025 9 30) = ''2025-09-30''"
    by (simp add: date_eval text_eval show_nat.simps)
  have fmt: "format_2f (Finite False 10000 (- 2)) = ''100.00''"
    by (simp add: decimal_eval text_eval show_nat.simps)
  have fl: "strip (field ?r3 4) = ''MILLWORK DEV PAYROLL #9''"
    by (simp add: field_def text_eval)
  have "\<lparr>date = isoformat (Date 2025 9 30), amount = format_2f (Finite False 10000 (- 2)),
          description = strip (field ?r3 4)\<rparr>
        \<in> set (matches (process_rows ?cfg ?st (iter_csv_rows ?rd ''Date,Amount'')))"
    using boundary_dates_are_included
      [where reader = ?rd and b = "''Date,Amount''" and before = "[?hdr, ?r2]" and r = ?r3
         and after = "[?r4]" and cfg = ?cfg and st = ?st and d = "Date 2025 9 30"
         and a = "Finite False 10000 (- 2)" and t = "Finite False 10000 (- 2)",
       OF h1 h2 h3 h4 h5 h6 h7 h8 h9]
    by blast
  then show ?thesis unfolding iso fmt fl .
qed

theorem boundary_overflow_counterexample:
  "parse_date ''09/30/2025'' = Inr (Date 2025 9 30)
   \<and> qualifies
        \<lparr>start_date = Date 2025 9 1, end_date = Date 2025 9 30,
         needle = ''deposit'', case_insensitive = False\<rparr>
        [''09/30/2025'', ''1E+1000000'', ''*'', [], ''deposit 17'']
   \<and> process_rows
        \<lparr>start_date = Date 2025 9 1, end_date = Date 2025 9 30,
         needle = ''deposit'', case_insensitive = False\<rparr>
        initial_state
        (iter_csv_rows
           (\<lambda>b. [[''Date'', ''Amount'', ''Type'', ''Category'', ''Description''],
                 [''09/30/2025'', ''1E+1000000'', ''*'', [], ''deposit 17'']])
           ''Date,Amount'')
       = \<lparr>matches = [], total = Finite False 0 0,
          errors = [''Line 2: Overflow: [<class '' @ [CHR 0x27] @ ''decimal.Overflow''
                      @ [CHR 0x27] @ ''>]'']\<rparr>"
proof -
  let ?hdr = "[''Date'', ''Amount'', ''Type'', ''Category'', ''Description'']"
  let ?r = "[''09/30/2025'', ''1E+1000000'', ''*'', [], ''deposit 17'']"
  let ?cfg = "\<lparr>start_date = Date 2025 9 1, end_date = Date 2025 9 30,
            needle = ''deposit'', case_insensitive = False\<rparr>"
  have pd: "parse_date ''09/30/2025'' = Inr (Date 2025 9 30)"
    by (simp add: parse_date_def text_eval date_eval)
  have a: "amount_of ?r = Finite False 1 1000000"
    by (simp add: amount_of_def field_def parse_decimal_def text_eval decimal_eval ndigits.simps
        char_eval)
  have q: "qualifies ?cfg ?r"
    by (simp add: qualifies_def hay_of_def field_def parse_date_def parse_decimal_def
        text_eval date_eval decimal_eval ndigits.simps char_eval)
  have ov: "dec_add (total initial_state) (amount_of ?r) = Inl Overflow"
    unfolding a by (simp add: initial_state_def decimal_eval ndigits.simps)
  have it: "iter_csv_rows (\<lambda>b. [?hdr, ?r]) ''Date,Amount'' = [(1, ?hdr), (2, ?r)]"
    by (simp add: iter_csv_rows_def enumerate_eq_zip upt_rec)
  have "\<exists>detail. parse_date (field ?hdr 0) = Inl (HTTPException 400 detail)"
    by (simp add: field_def parse_date_def text_eval date_eval)
  then obtain detail where "parse_date (field ?hdr 0) = Inl (HTTPException 400 detail)" ..
  then have s1: "process_row ?cfg initial_state (1, ?hdr) = initial_state"
    by (simp add: process_row_date_failure)
  have s2: "process_row ?cfg initial_state (2, ?r) = record_exception initial_state 2 Overflow"
    using q ov by (rule process_row_overflow)
  have "process_rows ?cfg initial_state [(1, ?hdr), (2, ?r)]
          = record_exception initial_state 2 Overflow"
    by (simp only: process_rows_def foldl_Cons foldl_Nil s1 s2)
  then show ?thesis
    using q pd unfolding it
    by (simp add: record_exception_def initial_state_def exception_text_def signal_name_def
        show_nat.simps digit_char_def)
qed

text \<open>
  C9, as amended. When the needle is the empty string, which is what line 88 makes of
  an empty \<open>desc_contains\<close> under either case rule, the substring test holds of every
  description. So a record whose date parses and lies within the range and whose
  amount parses and is strictly positive is matched, provided that adding the amount
  to the total the loop has reached does not overflow the decimal context: the loop
  goes on with the new total and the record's entry added to the matches, and the
  entry is among the matches when the loop ends, also in the loop as \<open>tithing\<close> runs it.
\<close>

theorem empty_needle_matches_every_row:
  assumes "reader b = before @ r # after" and "r \<noteq> []"
    and "needle cfg = []"
    and "parse_date (hd r) = Inr d"
    and "date_le (start_date cfg) d" and "date_le d (end_date cfg)"
    and "parse_decimal (Some (field r 1)) = Inr a" and "dec_le_zero a = Inr False"
    and "dec_add (total (process_rows cfg st (iter_csv_rows (\<lambda>x. before) b))) a = Inr t"
  shows "contains (needle cfg) (hay_of cfg r)
         \<and> (desc_contains req = [] \<longrightarrow> needle (loop_config_of req sd ed) = [])
         \<and> (\<exists>post. iter_csv_rows reader b
               = iter_csv_rows (\<lambda>x. before) b @ (length before + 1, padded r) # post
             \<and> process_rows cfg st (iter_csv_rows reader b)
                 = process_rows cfg
                     ((process_rows cfg st (iter_csv_rows (\<lambda>x. before) b))
                        \<lparr>total := t,
                         matches := matches (process_rows cfg st (iter_csv_rows (\<lambda>x. before) b))
                           @ [\<lparr>date = isoformat d, amount = format_2f a,
                                description = strip (field r 4)\<rparr>]\<rparr>)
                     post
             \<and> \<lparr>date = isoformat d, amount = format_2f a, description = strip (field r 4)\<rparr>
                 \<in> set (matches (process_rows cfg st (iter_csv_rows reader b))))
         \<and> (b = upload req \<and> cfg = loop_config_of req sd ed \<and> st = initial_state \<longrightarrow>
              \<lparr>date = isoformat d, amount = format_2f a, description = strip (field r 4)\<rparr>
                 \<in> set (matches (run_loop reader req sd ed)))"
proof -
  have c: "contains (needle cfg) (hay_of cfg r)"
    using assms(3) by (simp add: contains_Nil)
  have n: "desc_contains req = [] \<longrightarrow> needle (loop_config_of req sd ed) = []"
    by (simp add: loop_config_of_def lower_def)
  have pd: "parse_date (field r 0) = Inr d" using assms(2,4) by (simp add: field_0)
  have q: "qualifies cfg r"
    using pd c assms(5,6,7,8) by (simp add: qualifies_def)
  have am: "amount_of r = a" using assms(7) by (simp add: amount_of_def)
  have en: "entry_of r = \<lparr>date = isoformat d, amount = format_2f a, description = strip (field r 4)\<rparr>"
    using pd am by (simp add: entry_of_def)
  from loop_row_matched [of reader b before r "after" cfg st t, OF assms(1,2) q] assms(9)
  have lp: "\<exists>post. iter_csv_rows reader b
               = iter_csv_rows (\<lambda>x. before) b @ (length before + 1, padded r) # post
             \<and> process_rows cfg st (iter_csv_rows reader b)
                 = process_rows cfg
                     ((process_rows cfg st (iter_csv_rows (\<lambda>x. before) b))
                        \<lparr>total := t,
                         matches := matches (process_rows cfg st (iter_csv_rows (\<lambda>x. before) b))
                           @ [\<lparr>date = isoformat d, amount = format_2f a,
                                description = strip (field r 4)\<rparr>]\<rparr>)
                     post
             \<and> \<lparr>date = isoformat d, amount = format_2f a, description = strip (field r 4)\<rparr>
                 \<in> set (matches (process_rows cfg st (iter_csv_rows reader b)))"
    unfolding am en by blast
  then have rl: "b = upload req \<and> cfg = loop_config_of req sd ed \<and> st = initial_state \<longrightarrow>
              \<lparr>date = isoformat d, amount = format_2f a, description = strip (field r 4)\<rparr>
                 \<in> set (matches (run_loop reader req sd ed))"
    by (auto simp: run_loop_def)
  from c n lp rl show ?thesis by blast
qed

theorem empty_needle_matches_every_row_witness:
  "\<lparr>date = ''2025-09-10'', amount = ''42.50'', description = ''Anything at all''\<rparr>
     \<in> set (matches (process_rows
          \<lparr>start_date = Date 2025 9 1, end_date = Date 2025 9 30,
           needle = [], case_insensitive = True\<rparr>
          \<lparr>matches = [\<lparr>date = ''2025-09-01'', amount = ''0.00'', description = ''EARLIER''\<rparr>],
           total = Finite False 0 0, errors = [''earlier'']\<rparr>
          (iter_csv_rows
             (\<lambda>b. [[''Date'', ''Amount'', ''Type'', ''Category'', ''Description''],
                   [''09/10/2025'', ''42.50'', ''*'', [], '' Anything at all ''],
                   [''09/12/2025'', ''abc'', ''*'', [], ''Broken amount'']])
             ''Date,Amount'')))"
proof -
  let ?hdr = "[''Date'', ''Amount'', ''Type'', ''Category'', ''Description'']"
  let ?r2 = "[''09/10/2025'', ''42.50'', ''*'', [], '' Anything at all '']"
  let ?r3 = "[''09/12/2025'', ''abc'', ''*'', [], ''Broken amount'']"
  let ?rd = "\<lambda>b::bytes. [?hdr, ?r2, ?r3]"
  let ?cfg = "\<lparr>start_date = Date 2025 9 1, end_date = Date 2025 9 30,
            needle = [], case_insensitive = True\<rparr>"
  let ?st = "\<lparr>matches = [\<lparr>date = ''2025-09-01'', amount = ''0.00'', description = ''EARLIER''\<rparr>],
       total = Finite False 0 0, errors = [''earlier'']\<rparr>"
  have h1: "?rd ''Date,Amount'' = [?hdr] @ ?r2 # [?r3]" by simp
  have h2: "?r2 \<noteq> []" by simp
  have h3: "needle ?cfg = []" by simp
  have h4: "parse_date (hd ?r2) = Inr (Date 2025 9 10)"
    by (simp add: parse_date_def text_eval date_eval)
  have h5: "date_le (start_date ?cfg) (Date 2025 9 10)" by (simp add: date_le_def)
  have h6: "date_le (Date 2025 9 10) (end_date ?cfg)" by (simp add: date_le_def)
  have h7: "parse_decimal (Some (field ?r2 1)) = Inr (Finite False 4250 (- 2))"
    by (simp add: field_def parse_decimal_def text_eval decimal_eval ndigits.simps)
  have h8: "dec_le_zero (Finite False 4250 (- 2)) = Inr False"
    by (simp add: decimal_eval)
  have q1: "\<not> qualifies ?cfg ?hdr"
    by (simp add: qualifies_def field_def parse_date_def text_eval date_eval)
  have it: "iter_csv_rows (\<lambda>x. [?hdr]) ''Date,Amount'' = [(1, ?hdr)]"
    by (simp add: iter_csv_rows_def enumerate_eq_zip upt_rec)
  have pre: "total (process_rows ?cfg ?st (iter_csv_rows (\<lambda>x. [?hdr]) ''Date,Amount''))
               = Finite False 0 0"
    using process_row_not_qualifies [OF q1, of ?st 1]
    by (simp add: it process_rows_def)
  have h9: "dec_add (total (process_rows ?cfg ?st (iter_csv_rows (\<lambda>x. [?hdr]) ''Date,Amount'')))
              (Finite False 4250 (- 2)) = Inr (Finite False 4250 (- 2))"
    unfolding pre by (simp add: decimal_eval ndigits.simps)
  have iso: "isoformat (Date 2025 9 10) = ''2025-09-10''"
    by (simp add: date_eval text_eval show_nat.simps)
  have fmt: "format_2f (Finite False 4250 (- 2)) = ''42.50''"
    by (simp add: decimal_eval text_eval show_nat.simps)
  have fl: "strip (field ?r2 4) = ''Anything at all''"
    by (simp add: field_def text_eval)
  have "\<lparr>date = isoformat (Date 2025 9 10), amount = format_2f (Finite False 4250 (- 2)),
          description = strip (field ?r2 4)\<rparr>
        \<in> set (matches (process_rows ?cfg ?st (iter_csv_rows ?rd ''Date,Amount'')))"
    using empty_needle_matches_every_row
      [where reader = ?rd and b = "''Date,Amount''" and before = "[?hdr]" and r = ?r2
         and after = "[?r3]" and cfg = ?cfg and st = ?st and d = "Date 2025 9 10"
         and a = "Finite False 4250 (- 2)" and t = "Finite False 4250 (- 2)",
       OF h1 h2 h3 h4 h5 h6 h7 h8 h9]
    by blast
  then show ?thesis unfolding iso fmt fl .
qed

theorem empty_needle_overflow_counterexample:
  "needle (loop_config_of
      \<lparr>upload = ''09/10/2025,2e1000000'', start = ''2025-09-01'', end_param = ''2025-09-30'',
       desc_contains = [], rate_dec = Finite False 1 (- 1), rate_percent = 10,
       case_insensitive_param = True, csv_format = False\<rparr>
      (Date 2025 9 1) (Date 2025 9 30)) = []
   \<and> parse_date ''09/10/2025'' = Inr (Date 2025 9 10)
   \<and> date_le (Date 2025 9 1) (Date 2025 9 10) \<and> date_le (Date 2025 9 10) (Date 2025 9 30)
   \<and> parse_decimal (Some ''2e1000000'') = Inr (Finite False 2 1000000)
   \<and> dec_le_zero (Finite False 2 1000000) = Inr False
   \<and> run_loop (\<lambda>b. [[''09/10/2025'', ''2e1000000'']])
        \<lparr>upload = ''09/10/2025,2e1000000'', start = ''2025-09-01'', end_param = ''2025-09-30'',
         desc_contains = [], rate_dec = Finite False 1 (- 1), rate_percent = 10,
         case_insensitive_param = True, csv_format = False\<rparr>
        (Date 2025 9 1) (Date 2025 9 30)
       = \<lparr>matches = [], total = Finite False 0 0,
          errors = [''Line 1: Overflow: [<class '' @ [CHR 0x27] @ ''decimal.Overflow''
                      @ [CHR 0x27] @ ''>]'']\<rparr>"
proof -
  let ?r = "[''09/10/2025'', ''2e1000000'', [], [], []]"
  let ?req = "\<lparr>upload = ''09/10/2025,2e1000000'', start = ''2025-09-01'',
       end_param = ''2025-09-30'',
       desc_contains = [], rate_dec = Finite False 1 (- 1), rate_percent = 10,
       case_insensitive_param = True, csv_format = False\<rparr>"
  let ?cfg = "loop_config_of ?req (Date 2025 9 1) (Date 2025 9 30)"
  have n: "needle ?cfg = []" by (simp add: loop_config_of_def lower_def)
  have pd: "parse_date ''09/10/2025'' = Inr (Date 2025 9 10)"
    by (simp add: parse_date_def text_eval date_eval)
  have rg: "date_le (Date 2025 9 1) (Date 2025 9 10) \<and> date_le (Date 2025 9 10) (Date 2025 9 30)"
    by (simp add: date_le_def)
  have pa: "parse_decimal (Some ''2e1000000'') = Inr (Finite False 2 1000000)"
    by (simp add: parse_decimal_def text_eval decimal_eval ndigits.simps char_eval)
  have pos: "dec_le_zero (Finite False 2 1000000) = Inr False"
    by (simp add: decimal_eval)
  have a: "amount_of ?r = Finite False 2 1000000"
    using pa by (simp add: amount_of_def field_def)
  have q: "qualifies ?cfg ?r"
    using pd rg pa pos
    by (simp add: qualifies_def field_def loop_config_of_def lower_def contains_Nil)
  have ov: "dec_add (total initial_state) (amount_of ?r) = Inl Overflow"
    unfolding a by (simp add: initial_state_def decimal_eval ndigits.simps)
  have it: "iter_csv_rows (\<lambda>b. [[''09/10/2025'', ''2e1000000'']]) (upload ?req) = [(1, ?r)]"
    by (simp add: iter_csv_rows_def enumerate_eq_zip upt_rec numeral_3_eq_3)
  have s: "process_row ?cfg initial_state (1, ?r) = record_exception initial_state 1 Overflow"
    using q ov by (rule process_row_overflow)
  have "run_loop (\<lambda>b. [[''09/10/2025'', ''2e1000000'']]) ?req (Date 2025 9 1) (Date 2025 9 30)
          = record_exception initial_state 1 Overflow"
    by (simp only: run_loop_def it process_rows_def foldl_Cons foldl_Nil s)
  then show ?thesis
    using n pd rg pa pos
    by (simp add: record_exception_def initial_state_def exception_text_def signal_name_def
        show_nat.simps digit_char_def)
qed

section \<open>The roundings of the decimal module, as rounding of numbers\<close>

lemma ndigits_pos: "0 < ndigits n"
  by (subst ndigits.simps) simp

lemma ndigits_upper: "n < 10 ^ ndigits n"
proof (induction n rule: ndigits.induct)
  case (1 n)
  show ?case
  proof (cases "n < 10")
    case True
    then show ?thesis by (subst ndigits.simps) simp
  next
    case False
    with 1 have "n div 10 < 10 ^ ndigits (n div 10)" by simp
    then have "n < 10 * 10 ^ ndigits (n div 10)" by linarith
    with False show ?thesis by (subst ndigits.simps) simp
  qed
qed

lemma ndigits_lower: "n \<noteq> 0 \<Longrightarrow> 10 ^ (ndigits n - 1) \<le> n"
proof (induction n rule: ndigits.induct)
  case (1 n)
  show ?case
  proof (cases "n < 10")
    case True
    with 1 show ?thesis by (subst ndigits.simps) simp
  next
    case False
    then have nz: "n div 10 \<noteq> 0" by simp
    with 1 False have "10 ^ (ndigits (n div 10) - 1) \<le> n div 10" by simp
    then have "10 * 10 ^ (ndigits (n div 10) - 1) \<le> n" by linarith
    moreover have "ndigits n - 1 = Suc (ndigits (n div 10) - 1)"
      using False ndigits_pos [of "n div 10"] by (subst ndigits.simps) simp
    ultimately show ?thesis by simp
  qed
qed

lemma ndigits_le_iff: "0 < k \<Longrightarrow> ndigits n \<le> k \<longleftrightarrow> n < 10 ^ k"
proof
  assume "ndigits n \<le> k"
  then have "(10::nat) ^ ndigits n \<le> 10 ^ k" by (simp add: power_increasing)
  with ndigits_upper [of n] show "n < 10 ^ k" by linarith
next
  assume k: "0 < k" and lt: "n < 10 ^ k"
  show "ndigits n \<le> k"
  proof (cases "n = 0")
    case True
    then show ?thesis using k by (subst ndigits.simps) simp
  next
    case False
    from ndigits_lower [OF False] lt have "(10::nat) ^ (ndigits n - 1) < 10 ^ k" by linarith
    then have "ndigits n - 1 < k" by (simp add: power_strict_increasing_iff)
    then show ?thesis by simp
  qed
qed

lemma round_coeff_half_up:
  "int (round_coeff ROUND_HALF_UP c k) = half_up_int (of_nat c / 10 ^ k)"
proof -
  define P :: nat where "P = 10 ^ k"
  define q where "q = c div P"
  define r where "r = c mod P"
  have P: "0 < P" by (simp add: P_def)
  have c: "c = q * P + r" by (simp add: q_def r_def)
  have r: "r < P" using P by (simp add: r_def)
  have frac: "(of_nat c / of_nat P :: rat) = of_nat q + of_nat r / of_nat P"
    using P by (simp add: c field_simps)
  define x :: rat where "x = of_nat r / of_nat P"
  have frac': "(of_nat c / of_nat P :: rat) = of_nat q + x"
    by (simp add: frac x_def)
  have x1: "x < 1" using r P by (simp add: x_def)
  have x0: "0 \<le> x" by (simp add: x_def)
  have e1: "(of_int (int q + 1) :: rat) = of_nat q + 1" by simp
  have e0: "(of_int (int q) :: rat) = of_nat q" by simp
  show ?thesis
  proof (cases "P \<le> 2 * r")
    case True
    from True have "(of_nat P :: rat) \<le> of_nat (2 * r)" by (simp only: of_nat_le_iff)
    then have h: "1 / 2 \<le> x" using P by (simp add: x_def field_simps)
    have "\<lfloor>(of_nat c / of_nat P :: rat) + 1 / 2\<rfloor> = int q + 1"
      unfolding frac' by (rule floor_unique; (unfold e1)?; insert h x1; linarith)
    with True show ?thesis
      by (simp add: round_coeff_def half_up_int_def P_def q_def r_def Let_def)
  next
    case False
    then have "2 * r < P" by simp
    then have "(of_nat (2 * r) :: rat) < of_nat P" by (simp only: of_nat_less_iff)
    then have h: "x < 1 / 2" using P by (simp add: x_def field_simps)
    have "\<lfloor>(of_nat c / of_nat P :: rat) + 1 / 2\<rfloor> = int q"
      unfolding frac' by (rule floor_unique; (unfold e0)?; insert h x0; linarith)
    with False show ?thesis
      by (simp add: round_coeff_def half_up_int_def P_def q_def r_def Let_def)
  qed
qed


lemma round_coeff_half_even:
  "int (round_coeff ROUND_HALF_EVEN c k) = half_even_int (of_nat c / 10 ^ k)"
proof -
  define P :: nat where "P = 10 ^ k"
  define q where "q = c div P"
  define r where "r = c mod P"
  have P: "0 < P" by (simp add: P_def)
  have c: "c = q * P + r" by (simp add: q_def r_def)
  have r: "r < P" using P by (simp add: r_def)
  define x :: rat where "x = of_nat r / of_nat P"
  have frac: "(of_nat c / of_nat P :: rat) = of_nat q + x"
    using P by (simp add: c x_def field_simps)
  have x1: "x < 1" using r P by (simp add: x_def)
  have x0: "0 \<le> x" by (simp add: x_def)
  have fl: "\<lfloor>(of_nat q + x :: rat)\<rfloor> = int q"
    by (rule floor_unique) (use x0 x1 in simp_all)
  have gt: "1 / 2 < x \<longleftrightarrow> P < 2 * r"
  proof -
    have "1 / 2 < x \<longleftrightarrow> (of_nat P :: rat) < of_nat (2 * r)"
      using P by (simp add: x_def field_simps)
    then show ?thesis by (simp only: of_nat_less_iff)
  qed
  have eq: "x = 1 / 2 \<longleftrightarrow> 2 * r = P"
  proof -
    have "x = 1 / 2 \<longleftrightarrow> (of_nat (2 * r) :: rat) = of_nat P"
      using P by (auto simp add: x_def field_simps)
    then show ?thesis by (simp only: of_nat_eq_iff)
  qed
  have "half_even_int (of_nat q + x) = (if 1 / 2 < x \<or> (x = 1 / 2 \<and> odd q) then int q + 1 else int q)"
    by (simp add: half_even_int_def fl Let_def)
  moreover have "(of_nat c / 10 ^ k :: rat) = of_nat q + x"
    using frac by (simp add: P_def)
  moreover have "round_coeff ROUND_HALF_EVEN c k = (if P < 2 * r \<or> (2 * r = P \<and> odd q) then q + 1 else q)"
    by (simp add: round_coeff_def Let_def P_def q_def r_def)
  ultimately show ?thesis
    unfolding gt eq by simp
qed

lemma half_up_int_of_nat [simp]: "half_up_int (of_nat n) = int n"
proof -
  have "\<lfloor>(of_nat n :: rat) + 1 / 2\<rfloor> = int n"
    by (rule floor_unique) simp_all
  then show ?thesis by (simp add: half_up_int_def)
qed

lemma half_even_int_of_nat [simp]: "half_even_int (of_nat n) = int n"
  by (simp add: half_even_int_def)

lemma round_coeff_round_int: "int (round_coeff m c k) = round_int m (of_nat c / 10 ^ k)"
  by (cases m) (simp_all add: round_int_def round_coeff_half_up round_coeff_half_even)

lemma abs_val_cents:
  "\<bar>val (Finite s c e)\<bar> * 100 =
     (if - 2 \<le> e then of_nat (c * 10 ^ nat (e + 2)) else of_nat c / 10 ^ nat (- 2 - e))"
proof -
  consider "0 \<le> e" | "e = - 1" | "e = - 2" | "e < - 2" by linarith
  then show ?thesis
  proof cases
    case 1
    then have "nat (e + 2) = Suc (Suc (nat e))" by simp
    with 1 show ?thesis by (simp add: abs_mult)
  next
    case 2
    then show ?thesis by (simp add: abs_mult)
  next
    case 3
    then show ?thesis by (simp add: abs_mult)
  next
    case 4
    then have "nat (- e) = Suc (Suc (nat (- 2 - e)))" by simp
    with 4 show ?thesis by (simp add: abs_mult)
  qed
qed

lemma rescale_Finite:
  "rescale ex m (Finite s c e) =
     Finite s (if ex \<le> e then c * 10 ^ nat (e - ex) else round_coeff m c (nat (ex - e))) ex"
  by (simp add: rescale_def round_coeff_def Let_def split: rounding.splits)

lemma rescale_cents:
  "rescale (- 2) m (Finite s c e) = Finite s (nat (round_int m (\<bar>val (Finite s c e)\<bar> * 100))) (- 2)"
proof (cases "- 2 \<le> e")
  case True
  then show ?thesis
    by (cases m) (simp_all add: rescale_Finite abs_val_cents round_int_def del: val.simps of_nat_mult of_nat_power)
next
  case False
  have "nat (round_int m (of_nat c / 10 ^ nat (- 2 - e))) = round_coeff m c (nat (- 2 - e))"
    by (simp flip: round_coeff_round_int)
  with False show ?thesis
    by (simp add: rescale_Finite abs_val_cents del: val.simps)
qed

lemma half_up_int_nonneg: "0 \<le> y \<Longrightarrow> 0 \<le> half_up_int y"
  by (simp add: half_up_int_def)

lemma half_even_int_nonneg: "0 \<le> y \<Longrightarrow> 0 \<le> half_even_int y"
  by (auto simp: half_even_int_def Let_def intro: add_nonneg_nonneg)

lemma round_int_nonneg: "0 \<le> y \<Longrightarrow> 0 \<le> round_int m y"
  by (cases m) (simp_all add: round_int_def half_up_int_nonneg half_even_int_nonneg)

lemma sgn_val: "sgn (val (Finite s c e)) = (if c = 0 then 0 else if s then - 1 else 1)"
  by (simp add: sgn_mult)

lemma val_cents: "val (Finite s q (- 2)) = (if s then - 1 else 1) * of_nat q / 100"
  by simp

lemma val_rescale_round:
  "val (rescale (- 2) m (Finite s c e))
     = sgn (val (Finite s c e)) * of_int (round_int m (\<bar>val (Finite s c e)\<bar> * 100)) / 100"
proof (cases "c = 0")
  case True
  then show ?thesis by (simp add: rescale_def)
next
  case False
  have nn: "0 \<le> round_int m (\<bar>val (Finite s c e)\<bar> * 100)"
    by (rule round_int_nonneg) simp
  show ?thesis
    unfolding rescale_cents val_cents sgn_val using False nn by simp
qed

lemma val_rescale_half_up:
  "val (rescale (- 2) ROUND_HALF_UP (Finite s c e)) = round_half_up (val (Finite s c e))"
  unfolding val_rescale_round by (simp add: round_half_up_def round_int_def)

lemma val_rescale_half_even:
  "val (rescale (- 2) ROUND_HALF_EVEN (Finite s c e)) = round_half_even (val (Finite s c e))"
  unfolding val_rescale_round by (simp add: round_half_even_def round_int_def)

lemma Etiny_val: "Etiny = - 1000026" by (simp add: Etiny_def Emin_def prec_def)
lemma Etop_val: "Etop = 999972" by (simp add: Etop_def Emax_def prec_def)

lemma dec_fix_Finite:
  assumes "dec_fix (Finite s c e) = Inr d"
  shows "\<exists>c' e'. d = Finite s c' e'"
  using assms by (auto simp: dec_fix_def Let_def split: if_splits)

lemma dec_fix_exact:
  assumes "c \<noteq> 0" and "int (ndigits c) \<le> prec" and "Etiny \<le> e"
    and "dec_fix (Finite s c e) = Inr d"
  shows "d = Finite s c e"
  using assms by (auto simp: dec_fix_def Let_def split: if_splits)

lemma quantize_cents:
  assumes "quantize (Finite s c e) (- 2) m = Inr t"
  shows "t = rescale (- 2) m (Finite s c e) \<and> int (ndigits (coeff t)) \<le> prec"
proof (cases "c = 0")
  case True
  have nd0: "ndigits 0 = 1" by (subst ndigits.simps) simp
  from assms True have "t = Finite s 0 (- 2)"
    by (simp add: quantize_def dec_fix_def Etiny_val Emax_def)
  with True show ?thesis by (simp add: rescale_def nd0 prec_def)
next
  case False
  obtain q where q: "rescale (- 2) m (Finite s c e) = Finite s q (- 2)"
    by (simp add: rescale_Finite)
  from assms False have ok: "int (ndigits q) \<le> prec" and fx: "dec_fix (Finite s q (- 2)) = Inr t"
    by (auto simp: quantize_def q split: if_splits)
  have "t = Finite s q (- 2)"
  proof (cases "q = 0")
    case True
    with fx show ?thesis by (auto simp: dec_fix_def Etiny_val Emax_def)
  next
    case False
    from dec_fix_exact [OF False ok _ fx] show ?thesis by (simp add: Etiny_val)
  qed
  with q ok show ?thesis by simp
qed

section \<open>The displayed total\<close>

lemma dec_add_Finite_Finite:
  assumes "dec_add (Finite sa ca ea) (Finite sb cb eb) = Inr t"
  shows "\<exists>s c e. t = Finite s c e"
  using assms
  by (auto simp: dec_add_def Let_def rescale_Finite split: if_splits prod.splits
      dest!: dec_fix_Finite)

lemma dec_add_not_NaN:
  assumes "dec_add a b = Inr t" and "\<forall>x. a \<noteq> NaN x" and "\<forall>x. b \<noteq> NaN x"
  shows "t \<noteq> NaN y"
proof (cases a)
  case fa: (Finite sa ca ea)
  show ?thesis
  proof (cases b)
    case (Finite sb cb eb)
    with fa assms(1) dec_add_Finite_Finite show ?thesis by blast
  next
    case (Infinity sb)
    with fa assms(1) show ?thesis by (auto simp: dec_add_def)
  next
    case (NaN sb)
    with assms(3) show ?thesis by blast
  qed
next
  case ia: (Infinity sa)
  show ?thesis
  proof (cases b)
    case (Finite sb cb eb)
    with ia assms(1) show ?thesis by (auto simp: dec_add_def)
  next
    case (Infinity sb)
    with ia assms(1) show ?thesis by (auto simp: dec_add_def split: if_splits)
  next
    case (NaN sb)
    with assms(3) show ?thesis by blast
  qed
next
  case (NaN sa)
  with assms(2) show ?thesis by blast
qed

lemma dec_le_zero_not_NaN: "dec_le_zero a = Inr p \<Longrightarrow> a \<noteq> NaN x"
  by (auto simp: dec_le_zero_def)

lemma total_process_row_not_NaN:
  assumes "\<forall>x. total st \<noteq> NaN x"
  shows "\<forall>x. total (process_row cfg st lr) \<noteq> NaN x"
proof (cases lr)
  case (Pair n r)
  have "total (process_row cfg st (n, r)) = total st
        \<or> (\<exists>amt p. dec_le_zero amt = Inr p
              \<and> dec_add (total st) amt = Inr (total (process_row cfg st (n, r))))"
    by (auto simp: process_row_def Let_def record_exn_def record_http_def record_exception_def
        split: sum.splits bool.splits exn.splits)
  then show ?thesis
    using assms dec_add_not_NaN dec_le_zero_not_NaN unfolding Pair by metis
qed

lemma total_process_rows_not_NaN:
  "\<forall>x. total st \<noteq> NaN x \<Longrightarrow> \<forall>x. total (process_rows cfg st lrs) \<noteq> NaN x"
proof (induction lrs arbitrary: st)
  case Nil
  then show ?case by (simp add: process_rows_def)
next
  case (Cons lr lrs)
  from Cons.prems have "\<forall>x. total (process_row cfg st lr) \<noteq> NaN x"
    by (rule total_process_row_not_NaN)
  then have "\<forall>x. total (process_rows cfg (process_row cfg st lr) lrs) \<noteq> NaN x"
    by (rule Cons.IH)
  then show ?case by (simp add: process_rows_Cons)
qed

lemma total_run_loop_not_NaN: "total (run_loop reader req sd ed) \<noteq> NaN x"
  using total_process_rows_not_NaN [of initial_state]
  by (simp add: run_loop_def initial_state_def)

lemma compute_tithe_total_Finite:
  assumes "compute_tithe a (Finite sr cr er) = Inr t" and "\<forall>x. a \<noteq> NaN x"
  shows "\<exists>s c e. a = Finite s c e"
proof (cases a)
  case (Finite s c e)
  then show ?thesis by simp
next
  case (Infinity s)
  with assms(1) show ?thesis
    by (auto simp: compute_tithe_def dec_mul_def quantize_def split: if_splits)
next
  case (NaN s)
  with assms(2) show ?thesis by blast
qed

lemma format_2f_Finite:
  "format_2f (Finite s c e)
     = fixed_text s (nat (half_even_int (\<bar>val (Finite s c e)\<bar> * 100)))"
  by (simp add: format_2f_def rescale_cents round_int_def del: val.simps)

lemma val_format_2f:
  "val (Finite s (nat (half_even_int (\<bar>val (Finite s c e)\<bar> * 100))) (- 2))
     = round_half_even (val (Finite s c e))"
  using val_rescale_half_even [of s c e]
  by (simp only: rescale_cents round_int_def rounding.case)

lemma tithing_Inr:
  assumes "tithing reader req = Inr resp"
  shows "\<exists>sd ed. strptime_Ymd (start req) = Some sd \<and> strptime_Ymd (end_param req) = Some ed
           \<and> \<not> date_less ed sd \<and> upload req \<noteq> []
           \<and> respond req sd ed (run_loop reader req sd ed) = Inr resp"
  using assms by (auto simp: tithing_def split: option.splits if_splits)

lemma respond_Inr:
  assumes "respond req sd ed st = Inr resp"
  shows "\<exists>t. compute_tithe (total st) (rate_dec req) = Inr t
           \<and> reported_total resp = format_2f (total st)
           \<and> reported_tithe resp = format_2f t"
  using assms
  by (auto simp: respond_def reported_total_def reported_tithe_def
      split: sum.splits if_splits)

lemma tie_half_up: "round_half_up (val (Finite False 125 (- 3))) = 13 / 100"
  by (simp add: round_half_up_def half_up_int_def)

lemma tie_half_even: "round_half_even (val (Finite False 125 (- 3))) = 12 / 100"
proof -
  have "\<lfloor>25 / 2 :: rat\<rfloor> = 12" by (rule floor_unique) simp_all
  then show ?thesis by (simp add: round_half_even_def half_even_int_def Let_def)
qed

lemma tithing_respond:
  assumes "strptime_Ymd (start req) = Some sd" and "strptime_Ymd (end_param req) = Some ed"
    and "\<not> date_less ed sd" and "upload req \<noteq> []"
  shows "tithing reader req = respond req sd ed (run_loop reader req sd ed)"
  using assms by (simp add: tithing_def)

lemma respond_json:
  assumes "compute_tithe (total st) (rate_dec req) = Inr t" and "\<not> csv_format req"
  shows "\<exists>resp. respond req sd ed st = Inr resp"
  using assms by (simp add: respond_def)

text \<open>
  C10. Whenever \<open>tithing\<close> returns a response, the total it shows, which is the
  \<open>total_deposits\<close> of the JSON body and the second field of the \<open>TOTAL\<close> line of the
  detailed report, is the text \<open>f"{total:.2f}"\<close> of the total the loop has reached.
  That text is sign, integer digits, point and two digits of the hundredths \<open>q\<close>, and
  \<open>q\<close> hundredths is the total rounded to two places with ties to even. For a finite
  rate the total is a finite decimal. The rounding is not half-up: on the total 0.125
  the response shows 0.12, where rounding half-up gives 0.13.
\<close>

theorem displayed_total_is_half_even:
  assumes "tithing reader req = Inr resp"
  shows "\<exists>sd ed. strptime_Ymd (start req) = Some sd \<and> strptime_Ymd (end_param req) = Some ed
           \<and> reported_total resp = format_2f (total (run_loop reader req sd ed))
           \<and> (\<forall>b. resp = JSONResponse b \<longrightarrow>
                 total_deposits b = format_2f (total (run_loop reader req sd ed)))
           \<and> (\<forall>ls. resp = StreamingResponse ls \<longrightarrow>
                 last ls ! 0 = ''TOTAL''
                 \<and> last ls ! 1 = format_2f (total (run_loop reader req sd ed)))
           \<and> (\<forall>s c e. total (run_loop reader req sd ed) = Finite s c e \<longrightarrow>
                 (\<exists>q. reported_total resp = fixed_text s q
                    \<and> val (Finite s q (- 2)) = round_half_even (val (Finite s c e))))
           \<and> (\<forall>sr cr er. rate_dec req = Finite sr cr er \<longrightarrow>
                 (\<exists>s c e. total (run_loop reader req sd ed) = Finite s c e))"
proof -
  from tithing_Inr [OF assms] obtain sd ed
    where sd: "strptime_Ymd (start req) = Some sd"
      and ed: "strptime_Ymd (end_param req) = Some ed"
      and rs: "respond req sd ed (run_loop reader req sd ed) = Inr resp"
    by blast
  define st where "st = run_loop reader req sd ed"
  from respond_Inr [OF rs] obtain t
    where ct: "compute_tithe (total st) (rate_dec req) = Inr t"
      and rt: "reported_total resp = format_2f (total st)"
    unfolding st_def by blast
  have js: "\<forall>b. resp = JSONResponse b \<longrightarrow> total_deposits b = format_2f (total st)"
    using rt by (auto simp: reported_total_def)
  have cs: "\<forall>ls. resp = StreamingResponse ls \<longrightarrow>
              last ls ! 0 = ''TOTAL'' \<and> last ls ! 1 = format_2f (total st)"
    using rs unfolding st_def [symmetric]
    by (auto simp: respond_def split: sum.splits if_splits)
  have he: "\<forall>s c e. total st = Finite s c e \<longrightarrow>
              (\<exists>q. reported_total resp = fixed_text s q
                 \<and> val (Finite s q (- 2)) = round_half_even (val (Finite s c e)))"
  proof (intro allI impI)
    fix s c e assume f: "total st = Finite s c e"
    have "reported_total resp
            = fixed_text s (nat (half_even_int (\<bar>val (Finite s c e)\<bar> * 100)))"
      by (simp only: rt f format_2f_Finite)
    with val_format_2f [of s c e] show "\<exists>q. reported_total resp = fixed_text s q
        \<and> val (Finite s q (- 2)) = round_half_even (val (Finite s c e))"
      by blast
  qed
  have fin: "\<forall>sr cr er. rate_dec req = Finite sr cr er \<longrightarrow> (\<exists>s c e. total st = Finite s c e)"
  proof (intro allI impI)
    fix sr cr er assume r: "rate_dec req = Finite sr cr er"
    have "\<forall>x. total st \<noteq> NaN x"
      unfolding st_def by (simp add: total_run_loop_not_NaN)
    with ct r show "\<exists>s c e. total st = Finite s c e"
      using compute_tithe_total_Finite [of "total st" sr cr er t] by simp
  qed
  from sd ed rt js cs he fin show ?thesis unfolding st_def by blast
qed

theorem displayed_total_is_half_even_witness:
  "\<exists>resp. tithing
        (\<lambda>b. [[''Date'', ''Amount'', ''Type'', ''Category'', ''Description''],
              [''09/15/2025'', ''0.125'', ''*'', [], ''MILLWORK DEV PAYROLL''],
              [''10/02/2025'', ''7.00'', ''*'', [], ''MILLWORK DEV PAYROLL'']])
        \<lparr>upload = ''Date,Amount'', start = ''2025-09-01'', end_param = ''2025-09-30'',
         desc_contains = ''millwork dev payroll'', rate_dec = Finite False 1 (- 1),
         rate_percent = 10, case_insensitive_param = True, csv_format = False\<rparr>
      = Inr resp
    \<and> total (run_loop
        (\<lambda>b. [[''Date'', ''Amount'', ''Type'', ''Category'', ''Description''],
              [''09/15/2025'', ''0.125'', ''*'', [], ''MILLWORK DEV PAYROLL''],
              [''10/02/2025'', ''7.00'', ''*'', [], ''MILLWORK DEV PAYROLL'']])
        \<lparr>upload = ''Date,Amount'', start = ''2025-09-01'', end_param = ''2025-09-30'',
         desc_contains = ''millwork dev payroll'', rate_dec = Finite False 1 (- 1),
         rate_percent = 10, case_insensitive_param = True, csv_format = False\<rparr>
        (Date 2025 9 1) (Date 2025 9 30)) = Finite False 125 (- 3)
    \<and> reported_total resp = ''0.12''
    \<and> (\<exists>q. reported_total resp = fixed_text False q
          \<and> val (Finite False q (- 2)) = round_half_even (val (Finite False 125 (- 3))))
    \<and> round_half_even (val (Finite False 125 (- 3))) = 12 / 100
    \<and> round_half_up (val (Finite False 125 (- 3))) = 13 / 100"
proof -
  let ?hdr = "[''Date'', ''Amount'', ''Type'', ''Category'', ''Description'']"
  let ?r2 = "[''09/15/2025'', ''0.125'', ''*'', [], ''MILLWORK DEV PAYROLL'']"
  let ?r3 = "[''10/02/2025'', ''7.00'', ''*'', [], ''MILLWORK DEV PAYROLL'']"
  let ?rd = "\<lambda>b::bytes. [?hdr, ?r2, ?r3]"
  let ?req = "\<lparr>upload = ''Date,Amount'', start = ''2025-09-01'', end_param = ''2025-09-30'',
         desc_contains = ''millwork dev payroll'', rate_dec = Finite False 1 (- 1),
         rate_percent = 10, case_insensitive_param = True, csv_format = False\<rparr>"
  let ?cfg = "\<lparr>start_date = Date 2025 9 1, end_date = Date 2025 9 30,
            needle = ''millwork dev payroll'', case_insensitive = True\<rparr>"
  let ?st = "run_loop ?rd ?req (Date 2025 9 1) (Date 2025 9 30)"
  have sd: "strptime_Ymd (start ?req) = Some (Date 2025 9 1)"
    by (simp add: date_eval text_eval)
  have ed: "strptime_Ymd (end_param ?req) = Some (Date 2025 9 30)"
    by (simp add: date_eval text_eval)
  have cfg: "loop_config_of ?req (Date 2025 9 1) (Date 2025 9 30) = ?cfg"
    by (simp add: loop_config_of_def text_eval char_eval)
  have it: "iter_csv_rows ?rd (upload ?req) = [(1, ?hdr), (2, ?r2), (3, ?r3)]"
    by (simp add: iter_csv_rows_def enumerate_eq_zip upt_rec)
  have q1: "\<not> qualifies ?cfg ?hdr"
    by (simp add: qualifies_def field_def parse_date_def text_eval date_eval)
  have a2: "amount_of ?r2 = Finite False 125 (- 3)"
    by (simp add: amount_of_def field_def parse_decimal_def text_eval decimal_eval ndigits.simps)
  have q2: "qualifies ?cfg ?r2"
    by (simp add: qualifies_def hay_of_def field_def parse_date_def parse_decimal_def
        text_eval date_eval decimal_eval ndigits.simps char_eval)
  have q3: "\<not> qualifies ?cfg ?r3"
    by (simp add: qualifies_def hay_of_def field_def parse_date_def parse_decimal_def
        text_eval date_eval decimal_eval ndigits.simps char_eval)
  define s1 where "s1 = process_row ?cfg initial_state (1, ?hdr)"
  define s2 where "s2 = process_row ?cfg s1 (2, ?r2)"
  define s3 where "s3 = process_row ?cfg s2 (3, ?r3)"
  have t1: "total s1 = Finite False 0 0"
    using process_row_not_qualifies [OF q1, of initial_state 1]
    by (simp add: s1_def initial_state_def)
  have ad: "dec_add (total s1) (amount_of ?r2) = Inr (Finite False 125 (- 3))"
    unfolding t1 a2 by (simp add: decimal_eval ndigits.simps)
  have t2: "total s2 = Finite False 125 (- 3)"
    unfolding s2_def process_row_qualifies [OF q2 ad] by simp
  have t3: "total s3 = Finite False 125 (- 3)"
    using process_row_not_qualifies [OF q3, of s2 3] t2 by (simp add: s3_def)
  have st: "?st = s3"
    by (simp only: run_loop_def cfg it process_rows_def foldl_Cons foldl_Nil s1_def s2_def s3_def)
  have tot: "total ?st = Finite False 125 (- 3)"
    by (simp only: st t3)
  have ct: "compute_tithe (total ?st) (rate_dec ?req) = Inr (Finite False 1 (- 2))"
    unfolding tot by (simp add: compute_tithe_def decimal_eval ndigits.simps)
  have nc: "\<not> csv_format ?req" by simp
  have "\<exists>resp. respond ?req (Date 2025 9 1) (Date 2025 9 30) ?st = Inr resp"
    using ct nc by (rule respond_json)
  then obtain resp where rs: "respond ?req (Date 2025 9 1) (Date 2025 9 30) ?st = Inr resp" ..
  have dl: "\<not> date_less (Date 2025 9 30) (Date 2025 9 1)"
    by (simp add: date_less_def date_le_def)
  have ne: "upload ?req \<noteq> []" by simp
  have ti: "tithing ?rd ?req = Inr resp"
    using tithing_respond [of ?req "Date 2025 9 1" "Date 2025 9 30" ?rd, OF sd ed dl ne] rs
    by (rule trans)
  from displayed_total_is_half_even [OF ti] sd ed
  have rt: "reported_total resp = format_2f (total ?st)"
    and he: "\<forall>s c e. total ?st = Finite s c e \<longrightarrow>
                (\<exists>q. reported_total resp = fixed_text s q
                   \<and> val (Finite s q (- 2)) = round_half_even (val (Finite s c e)))"
    by auto
  have f: "format_2f (Finite False 125 (- 3)) = ''0.12''"
    by (simp add: decimal_eval text_eval show_nat.simps)
  from rt have r: "reported_total resp = ''0.12''" by (simp only: tot f)
  from he tot have e: "\<exists>q. reported_total resp = fixed_text False q
          \<and> val (Finite False q (- 2)) = round_half_even (val (Finite False 125 (- 3)))"
    by blast
  from ti tot r e tie_half_even tie_half_up show ?thesis by blast
qed

end
